theory Spec2Isabelle
  imports Main "HOL-Library.Word" "HOL-Library.Sublist"
begin

section \<open>JavaScript strings\<close>

text \<open>
  A JavaScript string is a sequence of UTF-16 code units. The wide-form comma U+3001 and
  the Unicode white space of \<^verbatim>\<open>\s\<close> and \<^verbatim>\<open>trim()\<close> all lie in the basic plane, so
  each of them is one code unit. A property that may be \<^verbatim>\<open>undefined\<close> is a
  \<open>jsstring option\<close>, with \<open>None\<close> for \<^verbatim>\<open>undefined\<close>.
\<close>

type_synonym code_unit = "16 word"
type_synonym jsstring = "code_unit list"

definition ascii :: "string \<Rightarrow> jsstring" where
  "ascii s = map of_char s"

definition comma :: code_unit where
  "comma = 0x2C"

definition wide_comma :: code_unit where
  "wide_comma = 0x3001"

definition pipe :: code_unit where
  "pipe = 0x7C"

text \<open>
  The code units that \<^verbatim>\<open>\s\<close> matches and \<^verbatim>\<open>trim()\<close> strips: ECMAScript's WhiteSpace
  (TAB, VT, FF, ZWNBSP and the space separators) and LineTerminator (LF, CR, LS, PS).
\<close>

definition isWhiteSpace :: "code_unit \<Rightarrow> bool" where
  "isWhiteSpace c \<longleftrightarrow>
     c = 0x09 \<or> c = 0x0A \<or> c = 0x0B \<or> c = 0x0C \<or> c = 0x0D \<or> c = 0x20 \<or> c = 0xA0 \<or>
     c = 0x1680 \<or> (0x2000 \<le> c \<and> c \<le> 0x200A) \<or> c = 0x2028 \<or> c = 0x2029 \<or>
     c = 0x202F \<or> c = 0x205F \<or> c = 0x3000 \<or> c = 0xFEFF"

definition trim :: "jsstring \<Rightarrow> jsstring" where
  "trim s = rev (dropWhile isWhiteSpace (rev (dropWhile isWhiteSpace s)))"

text \<open>Truthiness of a value that is a string or \<^verbatim>\<open>undefined\<close>: only a non-empty string is truthy.\<close>

fun truthy :: "jsstring option \<Rightarrow> bool" where
  "truthy None = False"
| "truthy (Some s) = (s \<noteq> [])"

text \<open>
  \<^verbatim>\<open>str.split(/,\s*|\u3001/)\<close>. The scan keeps the piece read so far; at an ASCII comma the
  match takes the comma and the longest run of white space after it, at a wide-form comma
  the match is that one code unit. The pattern never matches the empty string, so every
  match closes one piece, and the text after the last match is the last piece.
\<close>

function split_from :: "jsstring \<Rightarrow> jsstring \<Rightarrow> jsstring list" where
  "split_from cur [] = [cur]"
| "split_from cur (c # cs) =
     (if c = comma then cur # split_from [] (dropWhile isWhiteSpace cs)
      else if c = wide_comma then cur # split_from [] cs
      else split_from (cur @ [c]) cs)"
  by pat_completeness auto
termination
  by (relation "measure (\<lambda>(cur, s). length s)")
     (auto simp: length_dropWhile_le less_Suc_eq_le)

definition regex_split :: "jsstring \<Rightarrow> jsstring list" where
  "regex_split s = split_from [] s"

text \<open>A method call on \<^verbatim>\<open>undefined\<close> throws a TypeError; it is the only exception of this code.\<close>

datatype error = TypeError

text \<open>
  \<^verbatim>\<open>
  export function splitByDelimiters(str: string): string[] {
    if (!str) return [];
    return str.split(/,\s*|\u3001/).filter(item => item.trim() !== '');
  }
  \<close>
\<close>

definition splitByDelimiters :: "jsstring option \<Rightarrow> error + jsstring list" where
  "splitByDelimiters str =
     (if \<not> truthy str then Inr []
      else case str of
        None \<Rightarrow> Inl TypeError
      | Some s \<Rightarrow> Inr (filter (\<lambda>item. trim item \<noteq> []) (regex_split s)))"

subsection \<open>The splitting rule in the specification's words\<close>

text \<open>
  \<open>splits_as s ps\<close>: the string \<open>s\<close> is the pieces \<open>ps\<close> joined by delimiters, where a
  delimiter is a wide-form comma, or an ASCII comma with all the white space that follows
  it; no piece holds a comma of either kind.
\<close>

definition plain :: "jsstring \<Rightarrow> bool" where
  "plain p \<longleftrightarrow> comma \<notin> set p \<and> wide_comma \<notin> set p"

inductive splits_as :: "jsstring \<Rightarrow> jsstring list \<Rightarrow> bool" where
  last_piece: "plain p \<Longrightarrow> splits_as p [p]"
| wide_delim: "plain p \<Longrightarrow> splits_as rest ps \<Longrightarrow> splits_as (p @ wide_comma # rest) (p # ps)"
| ascii_delim: "plain p \<Longrightarrow> list_all isWhiteSpace ws \<Longrightarrow>
     rest = [] \<or> \<not> isWhiteSpace (hd rest) \<Longrightarrow> splits_as rest ps \<Longrightarrow>
     splits_as (p @ comma # ws @ rest) (p # ps)"

text \<open>The tokenizer as the specification words it: the pieces, trimmed, the empty ones dropped.\<close>

definition tokenize_trimmed :: "jsstring option \<Rightarrow> jsstring list" where
  "tokenize_trimmed raw =
     (case raw of
        None \<Rightarrow> []
      | Some s \<Rightarrow> if s = [] then [] else filter (\<lambda>t. t \<noteq> []) (map trim (regex_split s)))"

section \<open>The relevance graph builder\<close>

text \<open>
  \<^verbatim>\<open>
  export interface Researcher {
    id: string; name: string; affiliation: string; program: string; theme: string;
    field: string; keywords: string; keytechnology: string;
    connections?: Array<{ id: string; score: number }>;
  }
  \<close>
  The fields are strings or absent. A score is a sum of the weights 3, 2 and 1, one per
  token of an attribute string, so it is a natural number far below \<open>2 ^ 53\<close>, where
  JavaScript's numbers are exact.
\<close>

record Connection =
  conn_id :: "jsstring option"
  score :: nat

record Researcher =
  ident :: "jsstring option"
  name :: "jsstring option"
  affiliation :: "jsstring option"
  program :: "jsstring option"
  theme :: "jsstring option"
  field :: "jsstring option"
  keywords_str :: "jsstring option"
  keytechnology :: "jsstring option"
  connections :: "Connection list option"

text \<open>The five token lists a callback of \<^verbatim>\<open>calculateConnections\<close> computes, in its order.\<close>

record TagLists =
  keyword_tags :: "jsstring list"
  technology_tags :: "jsstring list"
  field_tags :: "jsstring list"
  theme_tags :: "jsstring list"
  program_tags :: "jsstring list"

definition tagsOf :: "Researcher \<Rightarrow> error + TagLists" where
  "tagsOf r =
     (case splitByDelimiters (keywords_str r) of Inl e \<Rightarrow> Inl e | Inr ks \<Rightarrow>
      case splitByDelimiters (keytechnology r) of Inl e \<Rightarrow> Inl e | Inr ts \<Rightarrow>
      case splitByDelimiters (field r) of Inl e \<Rightarrow> Inl e | Inr fs \<Rightarrow>
      case splitByDelimiters (theme r) of Inl e \<Rightarrow> Inl e | Inr hs \<Rightarrow>
      case splitByDelimiters (program r) of Inl e \<Rightarrow> Inl e | Inr ps \<Rightarrow>
        Inr \<lparr>keyword_tags = ks, technology_tags = ts, field_tags = fs,
             theme_tags = hs, program_tags = ps\<rparr>)"

text \<open>
  \<^verbatim>\<open>
  fields.forEach(field => {
    if (field && otherFields.includes(field)) { score += 3; }
  });
  \<close>
  One such loop, for the weight \<open>w\<close>, run on the score so far.
\<close>

definition add_matches :: "nat \<Rightarrow> jsstring list \<Rightarrow> jsstring list \<Rightarrow> nat \<Rightarrow> nat" where
  "add_matches w tags otherTags sc =
     fold (\<lambda>tag sc. if tag \<noteq> [] \<and> tag \<in> set otherTags then sc + w else sc) tags sc"

text \<open>
  The score of one pair: field 3, theme 2, keywords 1, keytechnology 1, in the order of
  the source. The program tags are computed and not used.
\<close>

definition score_between :: "TagLists \<Rightarrow> TagLists \<Rightarrow> nat" where
  "score_between mine other =
     add_matches 1 (technology_tags mine) (technology_tags other)
       (add_matches 1 (keyword_tags mine) (keyword_tags other)
         (add_matches 2 (theme_tags mine) (theme_tags other)
           (add_matches 3 (field_tags mine) (field_tags other) 0)))"

text \<open>The inner \<^verbatim>\<open>forEach\<close>: it pushes an entry for every other record of positive score.\<close>

fun collect :: "Researcher \<Rightarrow> TagLists \<Rightarrow> Researcher list \<Rightarrow> Connection list
    \<Rightarrow> error + Connection list" where
  "collect researcher mine [] conns = Inr conns"
| "collect researcher mine (otherResearcher # rest) conns =
     (if ident researcher = ident otherResearcher then collect researcher mine rest conns
      else case tagsOf otherResearcher of
        Inl e \<Rightarrow> Inl e
      | Inr other \<Rightarrow>
          collect researcher mine rest
            (if score_between mine other > 0
             then conns @ [\<lparr>conn_id = ident otherResearcher, score = score_between mine other\<rparr>]
             else conns))"

text \<open>
  \<^verbatim>\<open>connections.sort((a, b) => b.score - a.score)\<close>. \<^verbatim>\<open>Array.prototype.sort\<close> is
  stable; it is modelled as the insertion sort that keeps equal elements in their order.
\<close>

definition by_score_desc :: "Connection \<Rightarrow> Connection \<Rightarrow> int" where
  "by_score_desc a b = int (score b) - int (score a)"

fun insert_sorted :: "('a \<Rightarrow> 'a \<Rightarrow> int) \<Rightarrow> 'a \<Rightarrow> 'a list \<Rightarrow> 'a list" where
  "insert_sorted cmp x [] = [x]"
| "insert_sorted cmp x (y # ys) =
     (if cmp x y \<le> 0 then x # y # ys else y # insert_sorted cmp x ys)"

definition array_sort :: "('a \<Rightarrow> 'a \<Rightarrow> int) \<Rightarrow> 'a list \<Rightarrow> 'a list" where
  "array_sort cmp xs = foldr (insert_sorted cmp) xs []"

definition connectionsFor :: "Researcher \<Rightarrow> Researcher list \<Rightarrow> error + Connection list" where
  "connectionsFor researcher researchers =
     (case tagsOf researcher of
        Inl e \<Rightarrow> Inl e
      | Inr mine \<Rightarrow>
          (case collect researcher mine researchers [] of
             Inl e \<Rightarrow> Inl e
           | Inr conns \<Rightarrow> Inr (array_sort by_score_desc conns)))"

text \<open>
  The outer \<^verbatim>\<open>forEach\<close> writes \<^verbatim>\<open>researcher.connections\<close> in place. The records already
  visited are \<open>visited\<close>, with their new connections; the inner loop of a later record
  runs over the array as it is then, \<open>visited @ researcher # rest\<close>.
\<close>

fun forEach_researcher :: "Researcher list \<Rightarrow> Researcher list \<Rightarrow> error + Researcher list" where
  "forEach_researcher visited [] = Inr visited"
| "forEach_researcher visited (researcher # rest) =
     (case connectionsFor researcher (visited @ researcher # rest) of
        Inl e \<Rightarrow> Inl e
      | Inr conns \<Rightarrow>
          forEach_researcher (visited @ [researcher\<lparr>connections := Some conns\<rparr>]) rest)"

text \<open>\<^verbatim>\<open>calculateConnections\<close> returns nothing; the model returns the records of the array after it.\<close>

definition calculateConnections :: "Researcher list \<Rightarrow> error + Researcher list" where
  "calculateConnections researchers = forEach_researcher [] researchers"

text \<open>The score the builder computes from \<open>a\<close> toward \<open>b\<close>.\<close>

definition relevance :: "Researcher \<Rightarrow> Researcher \<Rightarrow> error + nat" where
  "relevance a b =
     (case tagsOf a of
        Inl e \<Rightarrow> Inl e
      | Inr mine \<Rightarrow> (case tagsOf b of Inl e \<Rightarrow> Inl e | Inr other \<Rightarrow> Inr (score_between mine other)))"

subsection \<open>The score in the specification's words\<close>

text \<open>The token list of an attribute, and the number of tokens of one list found in another.\<close>

definition tokens :: "jsstring option \<Rightarrow> jsstring list" where
  "tokens v = (case splitByDelimiters v of Inl e \<Rightarrow> [] | Inr ts \<Rightarrow> ts)"

definition matching :: "jsstring list \<Rightarrow> jsstring list \<Rightarrow> nat" where
  "matching tags otherTags = length (filter (\<lambda>tag. tag \<in> set otherTags) tags)"

definition weighted_overlap :: "Researcher \<Rightarrow> Researcher \<Rightarrow> nat" where
  "weighted_overlap a b =
     3 * matching (tokens (field a)) (tokens (field b))
     + 2 * matching (tokens (theme a)) (tokens (theme b))
     + 1 * matching (tokens (keywords_str a)) (tokens (keywords_str b))
     + 1 * matching (tokens (keytechnology a)) (tokens (keytechnology b))"

text \<open>The entries a record should hold before they are ranked: its peers of positive score, in input order.\<close>

definition edges :: "Researcher \<Rightarrow> Researcher list \<Rightarrow> Connection list" where
  "edges a rs =
     map (\<lambda>b. \<lparr>conn_id = ident b, score = weighted_overlap a b\<rparr>)
       (filter (\<lambda>b. ident a \<noteq> ident b \<and> weighted_overlap a b > 0) rs)"

text \<open>A record's entries as the builder ranks them.\<close>

definition ranked :: "Researcher \<Rightarrow> Researcher list \<Rightarrow> Connection list" where
  "ranked a rs = array_sort by_score_desc (edges a rs)"

text \<open>
  The score counted tag by tag: every distinct tag of the first list that is in the second
  list counts as often as it occurs in the first list.
\<close>

definition per_tag_sum :: "nat \<Rightarrow> jsstring list \<Rightarrow> jsstring list \<Rightarrow> nat" where
  "per_tag_sum w tags otherTags =
     sum_list (map (\<lambda>t. if t \<in> set otherTags then count_list tags t * w else 0) (remdups tags))"

section \<open>The record filter\<close>

text \<open>
  A criterion of the filter object: the key is absent, or present with the value
  \<^verbatim>\<open>undefined\<close>, or present with a string. Reading the property gives \<^verbatim>\<open>undefined\<close>
  in the first two cases. The object has the six keys of its type and no others.
\<close>

datatype criterion = Absent | Undefined | Given jsstring

fun read_value :: "criterion \<Rightarrow> jsstring option" where
  "read_value Absent = None"
| "read_value Undefined = None"
| "read_value (Given s) = Some s"

record Filters =
  by_field :: criterion
  by_keyword :: criterion
  by_keytechnology :: criterion
  by_program :: criterion
  by_theme :: criterion
  by_affiliation :: criterion

definition all_criteria :: "Filters \<Rightarrow> criterion list" where
  "all_criteria filters =
     [by_field filters, by_keyword filters, by_keytechnology filters,
      by_program filters, by_theme filters, by_affiliation filters]"

text \<open>\<^verbatim>\<open>Object.keys(filters)\<close>, as the criteria of the keys that are present.\<close>

definition object_keys :: "Filters \<Rightarrow> criterion list" where
  "object_keys filters = filter (\<lambda>c. c \<noteq> Absent) (all_criteria filters)"

text \<open>\<^verbatim>\<open>s.split("|")\<close>: a split on one code unit; the empty string gives one empty piece.\<close>

fun split_on :: "code_unit \<Rightarrow> jsstring \<Rightarrow> jsstring \<Rightarrow> jsstring list" where
  "split_on sep cur [] = [cur]"
| "split_on sep cur (c # cs) =
     (if c = sep then cur # split_on sep [] cs else split_on sep (cur @ [c]) cs)"

text \<open>
  \<^verbatim>\<open>
  function matchField(fieldValue: string | undefined, filterValue: string | undefined): boolean {
    if (!filterValue || !fieldValue) return !filterValue;
    const fieldValues = splitByDelimiters(fieldValue);
    if (filterValue.startsWith("AND:")) {
      const filterValues = filterValue.substring(4).split("|");
      return filterValues.every(value => fieldValues.includes(value));
    } else {
      const filterValues = filterValue.split("|");
      return filterValues.some(value => fieldValues.includes(value));
    }
  }
  \<close>
\<close>

definition matchField :: "jsstring option \<Rightarrow> jsstring option \<Rightarrow> error + bool" where
  "matchField fieldValue filterValue =
     (if \<not> truthy filterValue \<or> \<not> truthy fieldValue then Inr (\<not> truthy filterValue)
      else case splitByDelimiters fieldValue of
        Inl e \<Rightarrow> Inl e
      | Inr fieldValues \<Rightarrow>
          (case filterValue of
             None \<Rightarrow> Inl TypeError
           | Some fv \<Rightarrow>
               if prefix (ascii ''AND:'') fv
               then Inr (list_all (\<lambda>v. v \<in> set fieldValues) (split_on pipe [] (drop 4 fv)))
               else Inr (list_ex (\<lambda>v. v \<in> set fieldValues) (split_on pipe [] fv))))"

text \<open>
  \<^verbatim>\<open>filters.theme || filters.affiliation || ""\<close>: the first truthy operand, else the last one.
\<close>

fun string_or :: "jsstring option \<Rightarrow> jsstring \<Rightarrow> jsstring" where
  "string_or None d = d"
| "string_or (Some s) d = (if s \<noteq> [] then s else d)"

text \<open>
  \<^verbatim>\<open>researcher.name && researcher.name.toLowerCase().includes(searchText.toLowerCase())\<close>.
  The Unicode lower-case mapping of \<^verbatim>\<open>toLowerCase\<close> is the parameter \<open>lc\<close>.
\<close>

definition lower_includes :: "(jsstring \<Rightarrow> jsstring) \<Rightarrow> jsstring option \<Rightarrow> jsstring \<Rightarrow> error + bool" where
  "lower_includes lc v searchText =
     (if \<not> truthy v then Inr False
      else case v of
        None \<Rightarrow> Inl TypeError
      | Some s \<Rightarrow> Inr (sublist (lc searchText) (lc s)))"

text \<open>\<^verbatim>\<open>a || b\<close> on conditions that may throw: \<open>b\<close> is evaluated only when \<open>a\<close> is falsy.\<close>

definition or_else :: "error + bool \<Rightarrow> error + bool \<Rightarrow> error + bool" where
  "or_else a b = (case a of Inl e \<Rightarrow> Inl e | Inr x \<Rightarrow> if x then Inr True else b)"

text \<open>A check followed by the rest of the callback: a failed check returns \<^verbatim>\<open>false\<close> at once.\<close>

definition check_then :: "error + bool \<Rightarrow> error + bool \<Rightarrow> error + bool" where
  "check_then a b = (case a of Inl e \<Rightarrow> Inl e | Inr ok \<Rightarrow> if ok then b else Inr False)"

definition textMatch :: "(jsstring \<Rightarrow> jsstring) \<Rightarrow> Researcher \<Rightarrow> jsstring \<Rightarrow> error + bool" where
  "textMatch lc researcher searchText =
     or_else (lower_includes lc (name researcher) searchText)
       (or_else (lower_includes lc (theme researcher) searchText)
          (lower_includes lc (affiliation researcher) searchText))"

text \<open>\<^verbatim>\<open>filters.field && !matchField(researcher.field, filters.field)\<close> must not hold.\<close>

definition attribute_check :: "jsstring option \<Rightarrow> jsstring option \<Rightarrow> error + bool" where
  "attribute_check fieldValue filterValue =
     (if truthy filterValue then matchField fieldValue filterValue else Inr True)"

text \<open>The callback of \<^verbatim>\<open>researchers.filter\<close>.\<close>

definition keeps :: "(jsstring \<Rightarrow> jsstring) \<Rightarrow> Filters \<Rightarrow> Researcher \<Rightarrow> error + bool" where
  "keeps lc filters researcher =
     check_then
       (if truthy (read_value (by_theme filters)) \<or> truthy (read_value (by_affiliation filters))
        then textMatch lc researcher
               (string_or (read_value (by_theme filters))
                  (string_or (read_value (by_affiliation filters)) []))
        else Inr True)
       (check_then (attribute_check (field researcher) (read_value (by_field filters)))
         (check_then (attribute_check (keywords_str researcher) (read_value (by_keyword filters)))
           (check_then (attribute_check (keytechnology researcher) (read_value (by_keytechnology filters)))
             (check_then (attribute_check (program researcher) (read_value (by_program filters)))
               (Inr True)))))"

fun array_filter :: "('a \<Rightarrow> error + bool) \<Rightarrow> 'a list \<Rightarrow> error + 'a list" where
  "array_filter p [] = Inr []"
| "array_filter p (x # xs) =
     (case p x of
        Inl e \<Rightarrow> Inl e
      | Inr keep \<Rightarrow>
          (case array_filter p xs of
             Inl e \<Rightarrow> Inl e
           | Inr ys \<Rightarrow> Inr (if keep then x # ys else ys)))"

text \<open>
  \<^verbatim>\<open>
  if (Object.keys(filters).length === 0) { return researchers; }
  return researchers.filter(researcher => { ... });
  \<close>
\<close>

definition filterResearchers ::
    "(jsstring \<Rightarrow> jsstring) \<Rightarrow> Researcher list \<Rightarrow> Filters \<Rightarrow> error + Researcher list" where
  "filterResearchers lc researchers filters =
     (if length (object_keys filters) = 0 then Inr researchers
      else array_filter (keeps lc filters) researchers)"

subsection \<open>The filter on a heap\<close>

text \<open>
  The record objects, the arrays of references to them and the criteria objects live in a
  heap. \<^verbatim>\<open>researchers.filter(...)\<close> allocates a new array at the next free reference;
  the callback reads the records and the criteria and assigns to nothing.
\<close>

type_synonym ref = nat

record heap =
  objects :: "ref \<Rightarrow> Researcher"
  arrays :: "ref \<Rightarrow> ref list"
  criteria :: "ref \<Rightarrow> Filters"
  next_array :: ref

definition filterResearchers_in_heap ::
    "(jsstring \<Rightarrow> jsstring) \<Rightarrow> heap \<Rightarrow> ref \<Rightarrow> ref \<Rightarrow> error + ref \<times> heap" where
  "filterResearchers_in_heap lc h researchers filters =
     (if length (object_keys (criteria h filters)) = 0 then Inr (researchers, h)
      else case array_filter (\<lambda>r. keeps lc (criteria h filters) (objects h r)) (arrays h researchers) of
        Inl e \<Rightarrow> Inl e
      | Inr kept \<Rightarrow>
          Inr (next_array h,
               h\<lparr>arrays := (arrays h)(next_array h := kept), next_array := Suc (next_array h)\<rparr>))"

subsection \<open>The filter in the specification's words\<close>

text \<open>The pieces of an expression: non-empty in number, free of \<open>|\<close>, and joined by \<open>|\<close> they give it back.\<close>

fun join_with :: "code_unit \<Rightarrow> jsstring list \<Rightarrow> jsstring" where
  "join_with sep [] = []"
| "join_with sep [p] = p"
| "join_with sep (p # q # ps) = p @ sep # join_with sep (q # ps)"

definition pipe_list :: "jsstring \<Rightarrow> jsstring list \<Rightarrow> bool" where
  "pipe_list e ps \<longleftrightarrow> ps \<noteq> [] \<and> (\<forall>p\<in>set ps. pipe \<notin> set p) \<and> join_with pipe ps = e"

text \<open>
  A criterion is present when it is a non-empty string. The free-text query is the theme
  criterion when that is present, and the affiliation criterion otherwise.
\<close>

definition expression :: "criterion \<Rightarrow> jsstring" where
  "expression c = (case c of Given s \<Rightarrow> s | _ \<Rightarrow> [])"

definition present :: "criterion \<Rightarrow> bool" where
  "present c \<longleftrightarrow> expression c \<noteq> []"

definition query :: "Filters \<Rightarrow> jsstring" where
  "query f = (if present (by_theme f) then expression (by_theme f) else expression (by_affiliation f))"

text \<open>An attribute contains the query when both are lower-cased.\<close>

definition contains_ci :: "(jsstring \<Rightarrow> jsstring) \<Rightarrow> jsstring option \<Rightarrow> jsstring \<Rightarrow> bool" where
  "contains_ci lc v q = (case v of None \<Rightarrow> False | Some s \<Rightarrow> sublist (lc q) (lc s))"

definition free_text_check :: "(jsstring \<Rightarrow> jsstring) \<Rightarrow> Filters \<Rightarrow> Researcher \<Rightarrow> bool" where
  "free_text_check lc f r \<longleftrightarrow>
     (present (by_theme f) \<or> present (by_affiliation f) \<longrightarrow>
        contains_ci lc (name r) (query f) \<or> contains_ci lc (theme r) (query f) \<or>
        contains_ci lc (affiliation r) (query f))"

definition attribute_passes :: "criterion \<Rightarrow> jsstring option \<Rightarrow> bool" where
  "attribute_passes c v \<longleftrightarrow> (present c \<longrightarrow> matchField v (Some (expression c)) = Inr True)"

definition passes :: "(jsstring \<Rightarrow> jsstring) \<Rightarrow> Filters \<Rightarrow> Researcher \<Rightarrow> bool" where
  "passes lc f r \<longleftrightarrow>
     free_text_check lc f r \<and>
     attribute_passes (by_field f) (field r) \<and>
     attribute_passes (by_keyword f) (keywords_str r) \<and>
     attribute_passes (by_keytechnology f) (keytechnology r) \<and>
     attribute_passes (by_program f) (program r)"

section \<open>Example records\<close>

definition blank :: Researcher where
  "blank = \<lparr>ident = None, name = None, affiliation = None, program = None, theme = None,
     field = None, keywords_str = None, keytechnology = None, connections = None\<rparr>"

definition example_1 :: Researcher where
  "example_1 = blank\<lparr>ident := Some (ascii ''1''), field := Some (ascii ''H,I''),
     keywords_str := Some (ascii ''x, y'')\<rparr>"

definition example_2 :: Researcher where
  "example_2 = blank\<lparr>ident := Some (ascii ''2''), field := Some (ascii ''I''),
     keywords_str := Some (ascii ''y'')\<rparr>"

definition example_3 :: Researcher where
  "example_3 = blank\<lparr>ident := Some (ascii ''3''), field := Some (ascii ''V'')\<rparr>"

definition example_4 :: Researcher where
  "example_4 = blank\<lparr>ident := Some (ascii ''4''), field := Some (ascii ''H'')\<rparr>"

definition example_dup :: Researcher where
  "example_dup = blank\<lparr>ident := Some (ascii ''5''), keywords_str := Some (ascii ''X,X,Y'')\<rparr>"

definition example_once :: Researcher where
  "example_once = blank\<lparr>ident := Some (ascii ''6''), keywords_str := Some (ascii ''X'')\<rparr>"

definition example_thrice :: Researcher where
  "example_thrice = blank\<lparr>ident := Some (ascii ''7''), keywords_str := Some (ascii ''X,X,X'')\<rparr>"

text \<open>\<^verbatim>\<open>toLowerCase\<close> on ASCII text; it is used for the examples only.\<close>

definition toLowerCase_ascii :: "jsstring \<Rightarrow> jsstring" where
  "toLowerCase_ascii s = map (\<lambda>c. if 0x41 \<le> c \<and> c \<le> 0x5A then c + 0x20 else c) s"

definition no_filters :: Filters where
  "no_filters = \<lparr>by_field = Absent, by_keyword = Absent, by_keytechnology = Absent,
     by_program = Absent, by_theme = Absent, by_affiliation = Absent\<rparr>"

definition empty_filters :: Filters where
  "empty_filters = \<lparr>by_field = Given [], by_keyword = Given [], by_keytechnology = Given [],
     by_program = Given [], by_theme = Given [], by_affiliation = Given []\<rparr>"

definition example_kumamoto :: Researcher where
  "example_kumamoto = blank\<lparr>ident := Some (ascii ''8''), affiliation := Some (ascii ''Kumamoto Univ.'')\<rparr>"

definition example_heap :: heap where
  "example_heap = \<lparr>objects = (\<lambda>r. if r = 0 then example_1 else if r = 1 then example_2 else example_kumamoto),
     arrays = (\<lambda>a. if a = 0 then [0, 1, 2] else []),
     criteria = (\<lambda>c. if c = 0 then no_filters else no_filters\<lparr>by_affiliation := Given (ascii ''kuma'')\<rparr>),
     next_array = 1\<rparr>"

section \<open>Properties of the tokenizer\<close>

lemma comma_neq_wide: "comma \<noteq> wide_comma"
  by (simp add: comma_def wide_comma_def)

lemma split_from_plain:
  "plain p \<Longrightarrow> split_from cur (p @ r) = split_from (cur @ p) r"
  by (induction p arbitrary: cur) (auto simp: plain_def)

lemma dropWhile_run:
  assumes "list_all P ws" and "rest = [] \<or> \<not> P (hd rest)"
  shows "dropWhile P (ws @ rest) = rest"
proof -
  have "dropWhile P (ws @ rest) = dropWhile P rest"
    using assms(1) by (induction ws) auto
  also have "\<dots> = rest"
    using assms(2) by (cases rest) auto
  finally show ?thesis .
qed

lemma splits_as_split_from:
  "plain cur \<Longrightarrow> splits_as (cur @ s) (split_from cur s)"
proof (induction cur s rule: split_from.induct)
  case (1 cur)
  then show ?case by (simp add: splits_as.last_piece)
next
  case (2 cur c cs)
  show ?case
  proof (cases "c = comma")
    case True
    let ?ws = "takeWhile isWhiteSpace cs" and ?rest = "dropWhile isWhiteSpace cs"
    have "splits_as ?rest (split_from [] ?rest)"
      using "2.IH"(1) [OF True] by (simp add: plain_def)
    moreover have "list_all isWhiteSpace ?ws"
      by (simp add: list_all_iff) (meson set_takeWhileD)
    moreover have "?rest = [] \<or> \<not> isWhiteSpace (hd ?rest)"
      using hd_dropWhile by blast
    ultimately have "splits_as (cur @ comma # ?ws @ ?rest) (cur # split_from [] ?rest)"
      using "2.prems" by (intro splits_as.ascii_delim)
    then show ?thesis using True by simp
  next
    case False
    show ?thesis
    proof (cases "c = wide_comma")
      case True
      have "splits_as cs (split_from [] cs)"
        using "2.IH"(2) [OF False True] by (simp add: plain_def)
      then have "splits_as (cur @ wide_comma # cs) (cur # split_from [] cs)"
        using "2.prems" by (intro splits_as.wide_delim)
      then show ?thesis using True False by simp
    next
      case nw: False
      have "plain (cur @ [c])"
        using "2.prems" False nw by (simp add: plain_def)
      then have "splits_as ((cur @ [c]) @ cs) (split_from (cur @ [c]) cs)"
        using "2.IH"(3) [OF False nw] by simp
      then show ?thesis using False nw by simp
    qed
  qed
qed

lemma splits_as_regex_split: "splits_as s (regex_split s)"
  using splits_as_split_from [of "[]" s] by (simp add: regex_split_def plain_def)

lemma splits_as_unique: "splits_as s ps \<Longrightarrow> regex_split s = ps"
proof (induction rule: splits_as.induct)
  case (last_piece p)
  then show ?case
    using split_from_plain [of p "[]" "[]"] by (simp add: regex_split_def)
next
  case (wide_delim p rest ps)
  then show ?case
    using split_from_plain [of p "[]" "wide_comma # rest"] comma_neq_wide
    by (simp add: regex_split_def)
next
  case (ascii_delim p ws rest ps)
  then show ?case
    using split_from_plain [of p "[]" "comma # ws @ rest"]
    by (simp add: regex_split_def dropWhile_run)
qed

lemma splits_as_iff: "splits_as s ps \<longleftrightarrow> ps = regex_split s"
  using splits_as_regex_split splits_as_unique by blast

lemma splitByDelimiters_falsy: "\<not> truthy v \<Longrightarrow> splitByDelimiters v = Inr []"
  by (simp add: splitByDelimiters_def)

lemma splitByDelimiters_string:
  "s \<noteq> [] \<Longrightarrow> splitByDelimiters (Some s) = Inr (filter (\<lambda>item. trim item \<noteq> []) (regex_split s))"
  by (simp add: splitByDelimiters_def)

lemmas string_eval =
  ascii_def comma_def wide_comma_def pipe_def isWhiteSpace_def trim_def regex_split_def

text \<open>
  C2, as stated: the tokenizer returns the trimmed pieces. It does not: for \<^verbatim>\<open>"A ,B"\<close> the
  first token keeps its trailing space, so the result differs from the trimmed pieces.
\<close>

theorem splitByDelimiters_trimmed_counterexample:
  "splitByDelimiters (Some (ascii ''A ,B'')) = Inr [ascii ''A '', ascii ''B''] \<and>
   trim (ascii ''A '') \<noteq> ascii ''A '' \<and>
   splitByDelimiters (Some (ascii ''A ,B'')) \<noteq> Inr (tokenize_trimmed (Some (ascii ''A ,B'')))"
  by (simp add: splitByDelimiters_def tokenize_trimmed_def string_eval)

text \<open>
  C2, amended: for every input the tokenizer returns, in order, the pieces obtained by
  splitting the raw string on an ASCII comma with the white space after it or on a
  wide-form comma, keeping exactly the pieces that are not empty after trimming, each as
  it stands in the string (not trimmed). The empty string and \<^verbatim>\<open>undefined\<close> give the
  empty sequence, and \<^verbatim>\<open>"A, B"\<close>, a wide-form comma and \<^verbatim>\<open>"C"\<close> give \<^verbatim>\<open>["A","B","C"]\<close>.
\<close>

theorem splitByDelimiters_pieces:
  "splitByDelimiters None = Inr [] \<and>
   splitByDelimiters (Some []) = Inr [] \<and>
   (s \<noteq> [] \<longrightarrow>
      (\<exists>ps. splits_as s ps) \<and>
      (\<forall>ps. splits_as s ps \<longrightarrow>
         splitByDelimiters (Some s) = Inr (filter (\<lambda>p. trim p \<noteq> []) ps))) \<and>
   splitByDelimiters (Some (ascii ''A, B'' @ wide_comma # ascii ''C''))
     = Inr [ascii ''A'', ascii ''B'', ascii ''C'']"
proof -
  have "splitByDelimiters (Some (ascii ''A, B'' @ wide_comma # ascii ''C''))
      = Inr [ascii ''A'', ascii ''B'', ascii ''C'']"
    by (simp add: splitByDelimiters_def string_eval)
  moreover have "\<exists>ps. splits_as s ps"
    using splits_as_regex_split by blast
  moreover have "\<forall>ps. splits_as s ps \<longrightarrow>
      splitByDelimiters (Some s) = Inr (filter (\<lambda>p. trim p \<noteq> []) ps)" if "s \<noteq> []"
    using that by (simp add: splitByDelimiters_string splits_as_iff)
  ultimately show ?thesis
    by (simp add: splitByDelimiters_falsy)
qed

theorem splitByDelimiters_pieces_witness:
  "ascii ''A ,B'' \<noteq> [] \<and>
   splits_as (ascii ''A ,B'') [ascii ''A '', ascii ''B''] \<and>
   splitByDelimiters (Some (ascii ''A ,B'')) = Inr [ascii ''A '', ascii ''B'']"
proof -
  have ne: "ascii ''A ,B'' \<noteq> []"
    by (simp add: ascii_def)
  have sp: "splits_as (ascii ''A ,B'') [ascii ''A '', ascii ''B'']"
    by (simp add: splits_as_iff string_eval)
  have "splitByDelimiters (Some (ascii ''A ,B''))
      = Inr (filter (\<lambda>p. trim p \<noteq> []) [ascii ''A '', ascii ''B''])"
    using splitByDelimiters_pieces [of "ascii ''A ,B''"] ne sp by blast
  then show ?thesis
    using ne sp by (simp add: string_eval)
qed

section \<open>Properties of the relevance graph builder\<close>

lemma splitByDelimiters_tokens: "splitByDelimiters v = Inr (tokens v)"
  by (cases v) (simp_all add: tokens_def splitByDelimiters_def)

lemma tokens_falsy: "\<not> truthy v \<Longrightarrow> tokens v = []"
  by (simp add: tokens_def splitByDelimiters_falsy)

lemma tokens_nonempty: "[] \<notin> set (tokens v)"
  by (cases v) (auto simp: tokens_def splitByDelimiters_def trim_def)

lemma tagsOf_tokens:
  "tagsOf r = Inr \<lparr>keyword_tags = tokens (keywords_str r), technology_tags = tokens (keytechnology r),
      field_tags = tokens (field r), theme_tags = tokens (theme r), program_tags = tokens (program r)\<rparr>"
  by (simp add: tagsOf_def splitByDelimiters_tokens)

lemma add_matches_count:
  "[] \<notin> set tags \<Longrightarrow> add_matches w tags otherTags sc = sc + w * matching tags otherTags"
  unfolding add_matches_def matching_def
  by (induction tags arbitrary: sc) auto

lemma relevance_overlap: "relevance a b = Inr (weighted_overlap a b)"
  by (simp add: relevance_def tagsOf_tokens score_between_def weighted_overlap_def
      add_matches_count tokens_nonempty)

lemma score_between_overlap:
  "tagsOf a = Inr mine \<Longrightarrow> tagsOf b = Inr other \<Longrightarrow> score_between mine other = weighted_overlap a b"
  using relevance_overlap [of a b] by (simp add: relevance_def)

lemma collect_edges:
  "tagsOf a = Inr mine \<Longrightarrow> collect a mine rs conns = Inr (conns @ edges a rs)"
proof (induction rs arbitrary: conns)
  case Nil
  then show ?case by (simp add: edges_def)
next
  case (Cons b rs)
  obtain other where other: "tagsOf b = Inr other"
    by (simp add: tagsOf_tokens)
  have sc: "score_between mine other = weighted_overlap a b"
    using Cons.prems other by (rule score_between_overlap)
  show ?case
    using Cons.IH [OF Cons.prems] other sc by (simp add: edges_def)
qed

lemma connectionsFor_ranked: "connectionsFor a rs = Inr (ranked a rs)"
proof -
  obtain mine where mine: "tagsOf a = Inr mine"
    by (simp add: tagsOf_tokens)
  show ?thesis
    using collect_edges [OF mine, of rs "[]"] mine by (simp add: connectionsFor_def ranked_def)
qed

lemma edges_ignore_connections:
  "edges a (xs @ r\<lparr>connections := c\<rparr> # ys) = edges a (xs @ r # ys)"
  by (simp add: edges_def weighted_overlap_def)

lemma ranked_ignore_connections:
  "ranked a (xs @ r\<lparr>connections := c\<rparr> # ys) = ranked a (xs @ r # ys)"
  by (simp add: ranked_def edges_ignore_connections)

lemma ranked_ignore_own_connections: "ranked (a\<lparr>connections := c\<rparr>) rs = ranked a rs"
  by (simp add: ranked_def edges_def weighted_overlap_def)

lemma forEach_researcher_ranked:
  "forEach_researcher visited todo =
     Inr (visited @ map (\<lambda>r. r\<lparr>connections := Some (ranked r (visited @ todo))\<rparr>) todo)"
proof (induction todo arbitrary: visited)
  case Nil
  then show ?case by simp
next
  case (Cons r todo)
  have "forEach_researcher visited (r # todo)
      = forEach_researcher (visited @ [r\<lparr>connections := Some (ranked r (visited @ r # todo))\<rparr>]) todo"
    by (simp add: connectionsFor_ranked)
  also have "\<dots> = Inr ((visited @ [r\<lparr>connections := Some (ranked r (visited @ r # todo))\<rparr>])
      @ map (\<lambda>x. x\<lparr>connections := Some (ranked x (visited @ r # todo))\<rparr>) todo)"
    by (simp add: Cons.IH ranked_ignore_connections)
  finally show ?case by simp
qed

lemma calculateConnections_ranked:
  "calculateConnections rs = Inr (map (\<lambda>r. r\<lparr>connections := Some (ranked r rs)\<rparr>) rs)"
  by (simp add: calculateConnections_def forEach_researcher_ranked)

lemma insert_sorted_insort:
  "insert_sorted by_score_desc x ys = insort_key (\<lambda>c. - int (score c)) x ys"
  by (induction ys) (auto simp: by_score_desc_def)

lemma array_sort_sort_key:
  "array_sort by_score_desc xs = sort_key (\<lambda>c. - int (score c)) xs"
  unfolding array_sort_def sort_key_def
  by (induction xs) (simp_all add: insert_sorted_insort)

lemma set_ranked: "set (ranked a rs) = set (edges a rs)"
  by (simp add: ranked_def array_sort_sort_key)

lemma ranked_sorted: "sorted_wrt (\<lambda>c d. score d \<le> score c) (ranked a rs)"
proof -
  have "sorted (map (\<lambda>c. - int (score c)) (ranked a rs))"
    by (simp add: ranked_def array_sort_sort_key)
  then show ?thesis
    by (simp add: sorted_wrt_map sorted_wrt_iff_nth_less)
qed

lemma ranked_stable:
  "filter (\<lambda>c. score c = k) (ranked a rs) = filter (\<lambda>c. score c = k) (edges a rs)"
proof -
  have "filter (\<lambda>c. - int (score c) = - int k) (sort_key (\<lambda>c. - int (score c)) (edges a rs))
      = filter (\<lambda>c. - int (score c) = - int k) (edges a rs)"
    by (rule sort_key_stable)
  then show ?thesis
    by (simp add: ranked_def array_sort_sort_key)
qed

lemma edges_of_score:
  "0 < k \<Longrightarrow> filter (\<lambda>c. score c = k) (edges a rs) =
     map (\<lambda>b. \<lparr>conn_id = ident b, score = k\<rparr>)
       (filter (\<lambda>b. ident a \<noteq> ident b \<and> weighted_overlap a b = k) rs)"
  by (induction rs) (auto simp: edges_def)

lemma distinct_ranked_ids:
  assumes "distinct (map ident rs)"
  shows "distinct (map conn_id (ranked a rs))"
proof -
  have "map conn_id (edges a rs) = map ident (filter (\<lambda>b. ident a \<noteq> ident b \<and> weighted_overlap a b > 0) rs)"
    by (simp add: edges_def comp_def)
  then have d: "distinct (map conn_id (edges a rs))"
    using assms by (simp add: distinct_map_filter)
  then show ?thesis
    by (simp add: ranked_def array_sort_sort_key distinct_map)
qed

lemmas example_defs = blank_def example_1_def example_2_def example_3_def example_4_def
  example_dup_def example_once_def example_thrice_def

lemmas score_eval = weighted_overlap_def matching_def tokens_def splitByDelimiters_def string_eval

lemma set_ranked_image:
  "set (ranked a rs) = (\<lambda>b. \<lparr>conn_id = ident b, score = weighted_overlap a b\<rparr>) `
      {b \<in> set rs. ident a \<noteq> ident b \<and> 0 < weighted_overlap a b}"
  by (simp add: set_ranked edges_def)

lemma count_list_filter:
  "count_list (filter P xs) t = (if P t then count_list xs t else 0)"
  by (induction xs) auto

lemma matching_per_tag: "w * matching tags otherTags = per_tag_sum w tags otherTags"
proof -
  let ?hit = "filter (\<lambda>tag. tag \<in> set otherTags) tags"
  have "length ?hit = sum (count_list ?hit) (set tags)"
    by (rule sum_count_set [symmetric]) auto
  also have "\<dots> = (\<Sum>t\<in>set tags. if t \<in> set otherTags then count_list tags t else 0)"
    by (simp add: count_list_filter)
  finally have "w * matching tags otherTags
      = (\<Sum>t\<in>set tags. if t \<in> set otherTags then count_list tags t * w else 0)"
    by (simp add: matching_def sum_distrib_left if_distrib [of "\<lambda>n. w * n"] mult.commute cong: if_cong)
  also have "\<dots> = per_tag_sum w tags otherTags"
    by (simp add: per_tag_sum_def sum_list_distinct_conv_sum_set)
  finally show ?thesis .
qed

lemma matching_cong_set: "set ys = set zs \<Longrightarrow> matching xs ys = matching xs zs"
  by (simp add: matching_def)

lemma matching_card: "distinct xs \<Longrightarrow> matching xs ys = card (set xs \<inter> set ys)"
  by (simp add: matching_def distinct_length_filter Int_commute Collect_mem_eq)

lemma matching_disjoint: "set xs \<inter> set ys = {} \<Longrightarrow> matching xs ys = 0"
  by (auto simp: matching_def filter_empty_conv)

lemma matching_commute:
  assumes "distinct xs" and "distinct ys"
  shows "matching xs ys = matching ys xs"
  using assms by (simp add: matching_card Int_commute)

text \<open>
  C1: the score the builder computes from a record \<open>a\<close> toward a record \<open>b\<close> is 3 for
  every field tag of \<open>a\<close> that is in \<open>b\<close>'s field tags, 2 for every such theme tag, 1
  for every such keyword and 1 for every such technology; the program attribute adds
  nothing. The connections a record gets are exactly the entries \<open>(id of b, that score)\<close>
  for the records \<open>b\<close> of another id and positive score. If exactly one field tag of \<open>a\<close>
  is found in \<open>b\<close> and nothing else, the score is 3; with one keyword more it is 4. That
  holds when the tags are counted as tokens of \<open>a\<close>, and when they are counted as elements
  of the intersection of the tag sets and \<open>a\<close> repeats no field tag and no keyword.
\<close>

theorem relevance_weighted_sum:
  "relevance a b = Inr
     (3 * matching (tokens (field a)) (tokens (field b))
      + 2 * matching (tokens (theme a)) (tokens (theme b))
      + 1 * matching (tokens (keywords_str a)) (tokens (keywords_str b))
      + 1 * matching (tokens (keytechnology a)) (tokens (keytechnology b))) \<and>
   relevance (a\<lparr>program := p\<rparr>) (b\<lparr>program := q\<rparr>) = relevance a b \<and>
   (\<exists>rs'. calculateConnections rs = Inr rs' \<and> length rs' = length rs \<and>
      (\<forall>i<length rs. \<exists>cs. connections (rs' ! i) = Some cs \<and>
         set cs = (\<lambda>b. \<lparr>conn_id = ident b, score = weighted_overlap (rs ! i) b\<rparr>) `
           {b \<in> set rs. ident (rs ! i) \<noteq> ident b \<and> 0 < weighted_overlap (rs ! i) b})) \<and>
   (matching (tokens (field a)) (tokens (field b)) = 1 \<and>
    matching (tokens (theme a)) (tokens (theme b)) = 0 \<and>
    matching (tokens (keytechnology a)) (tokens (keytechnology b)) = 0 \<longrightarrow>
      (matching (tokens (keywords_str a)) (tokens (keywords_str b)) = 0 \<longrightarrow> relevance a b = Inr 3) \<and>
      (matching (tokens (keywords_str a)) (tokens (keywords_str b)) = 1 \<longrightarrow> relevance a b = Inr 4)) \<and>
   (distinct (tokens (field a)) \<and> distinct (tokens (keywords_str a)) \<and>
    card (set (tokens (field a)) \<inter> set (tokens (field b))) = 1 \<and>
    set (tokens (theme a)) \<inter> set (tokens (theme b)) = {} \<and>
    set (tokens (keytechnology a)) \<inter> set (tokens (keytechnology b)) = {} \<longrightarrow>
      (set (tokens (keywords_str a)) \<inter> set (tokens (keywords_str b)) = {} \<longrightarrow>
         relevance a b = Inr 3) \<and>
      (card (set (tokens (keywords_str a)) \<inter> set (tokens (keywords_str b))) = 1 \<longrightarrow>
         relevance a b = Inr 4))"
proof -
  have sum: "relevance a b = Inr
     (3 * matching (tokens (field a)) (tokens (field b))
      + 2 * matching (tokens (theme a)) (tokens (theme b))
      + 1 * matching (tokens (keywords_str a)) (tokens (keywords_str b))
      + 1 * matching (tokens (keytechnology a)) (tokens (keytechnology b)))"
    by (simp add: relevance_overlap weighted_overlap_def)
  have prog: "relevance (a\<lparr>program := p\<rparr>) (b\<lparr>program := q\<rparr>) = relevance a b"
    by (simp add: relevance_overlap weighted_overlap_def)
  have conns: "\<exists>rs'. calculateConnections rs = Inr rs' \<and> length rs' = length rs \<and>
      (\<forall>i<length rs. \<exists>cs. connections (rs' ! i) = Some cs \<and>
         set cs = (\<lambda>b. \<lparr>conn_id = ident b, score = weighted_overlap (rs ! i) b\<rparr>) `
           {b \<in> set rs. ident (rs ! i) \<noteq> ident b \<and> 0 < weighted_overlap (rs ! i) b})"
    by (simp add: calculateConnections_ranked set_ranked_image)
  have three: "relevance a b = Inr 3"
    if "matching (tokens (field a)) (tokens (field b)) = 1"
      "matching (tokens (theme a)) (tokens (theme b)) = 0"
      "matching (tokens (keytechnology a)) (tokens (keytechnology b)) = 0"
      "matching (tokens (keywords_str a)) (tokens (keywords_str b)) = 0"
    using that by (simp add: sum)
  have four: "relevance a b = Inr 4"
    if "matching (tokens (field a)) (tokens (field b)) = 1"
      "matching (tokens (theme a)) (tokens (theme b)) = 0"
      "matching (tokens (keytechnology a)) (tokens (keytechnology b)) = 0"
      "matching (tokens (keywords_str a)) (tokens (keywords_str b)) = 1"
    using that by (simp add: sum)
  have sets: "(set (tokens (keywords_str a)) \<inter> set (tokens (keywords_str b)) = {} \<longrightarrow>
         relevance a b = Inr 3) \<and>
      (card (set (tokens (keywords_str a)) \<inter> set (tokens (keywords_str b))) = 1 \<longrightarrow>
         relevance a b = Inr 4)"
    if "distinct (tokens (field a))" "distinct (tokens (keywords_str a))"
      "card (set (tokens (field a)) \<inter> set (tokens (field b))) = 1"
      "set (tokens (theme a)) \<inter> set (tokens (theme b)) = {}"
      "set (tokens (keytechnology a)) \<inter> set (tokens (keytechnology b)) = {}"
  proof -
    have "matching (tokens (field a)) (tokens (field b)) = 1"
      using that(1,3) by (simp add: matching_card)
    moreover have "matching (tokens (theme a)) (tokens (theme b)) = 0"
      "matching (tokens (keytechnology a)) (tokens (keytechnology b)) = 0"
      using that(4,5) by (simp_all add: matching_disjoint)
    moreover have "matching (tokens (keywords_str a)) (tokens (keywords_str b)) = 0"
      if "set (tokens (keywords_str a)) \<inter> set (tokens (keywords_str b)) = {}"
      using that by (rule matching_disjoint)
    moreover have "matching (tokens (keywords_str a)) (tokens (keywords_str b)) = 1"
      if "card (set (tokens (keywords_str a)) \<inter> set (tokens (keywords_str b))) = 1"
      using that \<open>distinct (tokens (keywords_str a))\<close> by (simp add: matching_card)
    ultimately show ?thesis
      using three four by blast
  qed
  show ?thesis
    using sum prog conns three four sets by blast
qed

theorem relevance_weighted_sum_witness:
  "matching (tokens (field example_1)) (tokens (field example_2)) = 1 \<and>
   matching (tokens (theme example_1)) (tokens (theme example_2)) = 0 \<and>
   matching (tokens (keytechnology example_1)) (tokens (keytechnology example_2)) = 0 \<and>
   matching (tokens (keywords_str example_1)) (tokens (keywords_str example_2)) = 1 \<and>
   relevance example_1 example_2 = Inr 4 \<and>
   distinct (tokens (field example_1)) \<and> distinct (tokens (keywords_str example_1)) \<and>
   card (set (tokens (field example_1)) \<inter> set (tokens (field example_4))) = 1 \<and>
   set (tokens (theme example_1)) \<inter> set (tokens (theme example_4)) = {} \<and>
   set (tokens (keytechnology example_1)) \<inter> set (tokens (keytechnology example_4)) = {} \<and>
   set (tokens (keywords_str example_1)) \<inter> set (tokens (keywords_str example_4)) = {} \<and>
   relevance example_1 example_4 = Inr 3"
proof -
  have m: "matching (tokens (field example_1)) (tokens (field example_2)) = 1"
    "matching (tokens (theme example_1)) (tokens (theme example_2)) = 0"
    "matching (tokens (keytechnology example_1)) (tokens (keytechnology example_2)) = 0"
    "matching (tokens (keywords_str example_1)) (tokens (keywords_str example_2)) = 1"
    by code_simp+
  have n: "distinct (tokens (field example_1))" "distinct (tokens (keywords_str example_1))"
    "card (set (tokens (field example_1)) \<inter> set (tokens (field example_4))) = 1"
    "set (tokens (theme example_1)) \<inter> set (tokens (theme example_4)) = {}"
    "set (tokens (keytechnology example_1)) \<inter> set (tokens (keytechnology example_4)) = {}"
    "set (tokens (keywords_str example_1)) \<inter> set (tokens (keywords_str example_4)) = {}"
    by code_simp+
  have "relevance example_1 example_2 = Inr 4"
    using relevance_weighted_sum [of example_1 example_2] m by blast
  moreover have "relevance example_1 example_4 = Inr 3"
    using relevance_weighted_sum [of example_1 example_4] n by blast
  ultimately show ?thesis
    using m n by simp
qed

text \<open>
  C5: when the ids of the records are pairwise distinct, \<^verbatim>\<open>calculateConnections\<close> leaves
  every record with a connections list that has no entry for the record's own id, no two
  entries for one id, only positive scores, scores that never increase along the list and,
  for every score, the entries of that score in the order of their peers in the input.
\<close>

theorem connections_invariant:
  assumes "distinct (map ident rs)"
  shows "\<exists>rs'. calculateConnections rs = Inr rs' \<and> length rs' = length rs \<and>
     (\<forall>i<length rs. \<exists>cs. connections (rs' ! i) = Some cs \<and> ident (rs' ! i) = ident (rs ! i) \<and>
        (\<forall>c\<in>set cs. conn_id c \<noteq> ident (rs ! i)) \<and>
        distinct (map conn_id cs) \<and>
        (\<forall>c\<in>set cs. 0 < score c) \<and>
        sorted_wrt (\<lambda>c d. score d \<le> score c) cs \<and>
        (\<forall>k. filter (\<lambda>c. score c = k) cs =
           map (\<lambda>b. \<lparr>conn_id = ident b, score = k\<rparr>)
             (filter (\<lambda>b. ident (rs ! i) \<noteq> ident b \<and> 0 < k \<and> relevance (rs ! i) b = Inr k) rs)))"
proof -
  let ?rs' = "map (\<lambda>r. r\<lparr>connections := Some (ranked r rs)\<rparr>) rs"
  have "\<exists>cs. connections (?rs' ! i) = Some cs \<and> ident (?rs' ! i) = ident (rs ! i) \<and>
        (\<forall>c\<in>set cs. conn_id c \<noteq> ident (rs ! i)) \<and>
        distinct (map conn_id cs) \<and>
        (\<forall>c\<in>set cs. 0 < score c) \<and>
        sorted_wrt (\<lambda>c d. score d \<le> score c) cs \<and>
        (\<forall>k. filter (\<lambda>c. score c = k) cs =
           map (\<lambda>b. \<lparr>conn_id = ident b, score = k\<rparr>)
             (filter (\<lambda>b. ident (rs ! i) \<noteq> ident b \<and> 0 < k \<and> relevance (rs ! i) b = Inr k) rs))"
    if i: "i < length rs" for i
  proof -
    let ?a = "rs ! i" and ?cs = "ranked (rs ! i) rs"
    have noself: "\<forall>c\<in>set ?cs. conn_id c \<noteq> ident ?a"
      by (auto simp: set_ranked edges_def)
    have pos: "\<forall>c\<in>set ?cs. 0 < score c"
      by (auto simp: set_ranked edges_def)
    have stable: "filter (\<lambda>c. score c = k) ?cs =
        map (\<lambda>b. \<lparr>conn_id = ident b, score = k\<rparr>)
          (filter (\<lambda>b. ident ?a \<noteq> ident b \<and> 0 < k \<and> relevance ?a b = Inr k) rs)" for k
    proof (cases "0 < k")
      case True
      then show ?thesis
        by (simp add: ranked_stable edges_of_score relevance_overlap)
    next
      case False
      then have "filter (\<lambda>c. score c = k) ?cs = []"
        using pos by (auto simp: filter_empty_conv)
      then show ?thesis using False by simp
    qed
    show ?thesis
      using i noself pos stable distinct_ranked_ids [OF assms, of ?a] ranked_sorted [of ?a rs]
      by simp
  qed
  then show ?thesis
    by (simp add: calculateConnections_ranked)
qed

theorem connections_invariant_witness:
  "distinct (map ident [example_1, example_2, example_3, example_4]) \<and>
   (\<exists>rs' cs. calculateConnections [example_1, example_2, example_3, example_4] = Inr rs' \<and>
      connections (rs' ! 0) = Some cs \<and> distinct (map conn_id cs) \<and>
      sorted_wrt (\<lambda>c d. score d \<le> score c) cs \<and>
      filter (\<lambda>c. score c = 4) cs = [\<lparr>conn_id = ident example_2, score = 4\<rparr>])"
proof -
  let ?rs = "[example_1, example_2, example_3, example_4]"
  have d: "distinct (map ident ?rs)"
    by (simp add: example_defs ascii_def)
  have f: "filter (\<lambda>b. ident (?rs ! 0) \<noteq> ident b \<and> 0 < (4::nat) \<and> relevance (?rs ! 0) b = Inr 4) ?rs
      = [example_2]"
    by code_simp
  from connections_invariant [OF d] obtain rs' where r: "calculateConnections ?rs = Inr rs'"
    and a: "\<forall>i<length ?rs. \<exists>cs. connections (rs' ! i) = Some cs \<and> ident (rs' ! i) = ident (?rs ! i) \<and>
        (\<forall>c\<in>set cs. conn_id c \<noteq> ident (?rs ! i)) \<and>
        distinct (map conn_id cs) \<and>
        (\<forall>c\<in>set cs. 0 < score c) \<and>
        sorted_wrt (\<lambda>c d. score d \<le> score c) cs \<and>
        (\<forall>k. filter (\<lambda>c. score c = k) cs =
           map (\<lambda>b. \<lparr>conn_id = ident b, score = k\<rparr>)
             (filter (\<lambda>b. ident (?rs ! i) \<noteq> ident b \<and> 0 < k \<and> relevance (?rs ! i) b = Inr k) ?rs))"
    by (elim exE conjE)
  have "0 < length ?rs" by simp
  from a [rule_format, OF this] obtain cs where cs: "connections (rs' ! 0) = Some cs" "distinct (map conn_id cs)"
      "sorted_wrt (\<lambda>c d. score d \<le> score c) cs"
      and st: "\<forall>k. filter (\<lambda>c. score c = k) cs =
           map (\<lambda>b. \<lparr>conn_id = ident b, score = k\<rparr>)
             (filter (\<lambda>b. ident (?rs ! 0) \<noteq> ident b \<and> 0 < k \<and> relevance (?rs ! 0) b = Inr k) ?rs)"
    by (elim exE conjE)
  have "filter (\<lambda>c. score c = 4) cs = [\<lparr>conn_id = ident example_2, score = 4\<rparr>]"
    unfolding st [rule_format, of 4] f by simp
  with d r cs show ?thesis
    by (intro conjI exI)
qed

text \<open>
  C6: a tag that occurs \<open>k\<close> times among \<open>a\<close>'s tokens of an attribute and is among
  \<open>b\<close>'s tokens of it adds \<open>k\<close> times the weight of the attribute to the score from \<open>a\<close>
  toward \<open>b\<close>: the score is the sum of these terms over the distinct tags of \<open>a\<close>, and
  one loop adds \<open>k * w\<close> for the tag to what it adds for the other tags. How often the tag
  occurs on \<open>b\<close>'s side makes no difference: only the set of \<open>b\<close>'s tokens counts.
\<close>

theorem relevance_counts_occurrences:
  "relevance a b = Inr
     (per_tag_sum 3 (tokens (field a)) (tokens (field b))
      + per_tag_sum 2 (tokens (theme a)) (tokens (theme b))
      + per_tag_sum 1 (tokens (keywords_str a)) (tokens (keywords_str b))
      + per_tag_sum 1 (tokens (keytechnology a)) (tokens (keytechnology b))) \<and>
   (set (tokens (field b')) = set (tokens (field b)) \<and>
    set (tokens (theme b')) = set (tokens (theme b)) \<and>
    set (tokens (keywords_str b')) = set (tokens (keywords_str b)) \<and>
    set (tokens (keytechnology b')) = set (tokens (keytechnology b))
      \<longrightarrow> relevance a b' = relevance a b) \<and>
   (set otherTags' = set otherTags \<and> [] \<notin> set tags \<and> t \<in> set otherTags \<longrightarrow>
      add_matches w tags otherTags' sc
        = add_matches w (removeAll t tags) otherTags sc + count_list tags t * w)"
proof -
  have "relevance a b = Inr
     (per_tag_sum 3 (tokens (field a)) (tokens (field b))
      + per_tag_sum 2 (tokens (theme a)) (tokens (theme b))
      + per_tag_sum 1 (tokens (keywords_str a)) (tokens (keywords_str b))
      + per_tag_sum 1 (tokens (keytechnology a)) (tokens (keytechnology b)))"
    by (simp add: relevance_overlap weighted_overlap_def matching_per_tag)
  moreover have "relevance a b' = relevance a b"
    if "set (tokens (field b')) = set (tokens (field b))"
      "set (tokens (theme b')) = set (tokens (theme b))"
      "set (tokens (keywords_str b')) = set (tokens (keywords_str b))"
      "set (tokens (keytechnology b')) = set (tokens (keytechnology b))"
    using that by (simp add: relevance_overlap weighted_overlap_def matching_def)
  moreover have "add_matches w tags otherTags' sc
        = add_matches w (removeAll t tags) otherTags sc + count_list tags t * w"
    if "set otherTags' = set otherTags" "[] \<notin> set tags" "t \<in> set otherTags"
  proof -
    have "matching tags otherTags = matching (removeAll t tags) otherTags + count_list tags t"
      using that(3) unfolding matching_def by (induction tags) auto
    moreover have "[] \<notin> set (removeAll t tags)"
      using that(2) by simp
    ultimately show ?thesis
      using that(1,2) by (simp add: add_matches_count matching_def algebra_simps)
  qed
  ultimately show ?thesis by blast
qed

theorem relevance_counts_occurrences_witness:
  "set (tokens (keywords_str example_thrice)) = set (tokens (keywords_str example_once)) \<and>
   count_list (tokens (keywords_str example_dup)) (ascii ''X'') = 2 \<and>
   relevance example_dup example_once = Inr 2 \<and>
   relevance example_dup example_thrice = Inr 2 \<and>
   relevance example_once example_dup = Inr 1"
proof -
  have s: "set (tokens (field example_thrice)) = set (tokens (field example_once))"
    "set (tokens (theme example_thrice)) = set (tokens (theme example_once))"
    "set (tokens (keywords_str example_thrice)) = set (tokens (keywords_str example_once))"
    "set (tokens (keytechnology example_thrice)) = set (tokens (keytechnology example_once))"
    by code_simp+
  have c: "count_list (tokens (keywords_str example_dup)) (ascii ''X'') = 2"
    by code_simp
  have p: "per_tag_sum 3 (tokens (field example_dup)) (tokens (field example_once))
      + per_tag_sum 2 (tokens (theme example_dup)) (tokens (theme example_once))
      + per_tag_sum 1 (tokens (keywords_str example_dup)) (tokens (keywords_str example_once))
      + per_tag_sum 1 (tokens (keytechnology example_dup)) (tokens (keytechnology example_once)) = 2"
    by code_simp
  have q: "per_tag_sum 3 (tokens (field example_once)) (tokens (field example_dup))
      + per_tag_sum 2 (tokens (theme example_once)) (tokens (theme example_dup))
      + per_tag_sum 1 (tokens (keywords_str example_once)) (tokens (keywords_str example_dup))
      + per_tag_sum 1 (tokens (keytechnology example_once)) (tokens (keytechnology example_dup)) = 1"
    by code_simp
  have 1: "relevance example_dup example_once = Inr 2"
    using relevance_counts_occurrences [of example_dup example_once] p by simp
  have 2: "relevance example_dup example_thrice = relevance example_dup example_once"
    using relevance_counts_occurrences [of example_dup example_once example_thrice] s by blast
  have 3: "relevance example_once example_dup = Inr 1"
    using relevance_counts_occurrences [of example_once example_dup] q by simp
  show ?thesis
    using s(3) c 1 2 3 by simp
qed

text \<open>
  C7: when no token list of a scored attribute of \<open>a\<close> or of \<open>b\<close> repeats a token, the
  score from \<open>a\<close> toward \<open>b\<close> is the score from \<open>b\<close> toward \<open>a\<close>, and the field loop adds
  the same from either side; for equal field tag sets that is 3 for every tag.
\<close>

theorem relevance_symmetric:
  assumes "distinct (tokens (field a))" and "distinct (tokens (field b))"
    and "distinct (tokens (theme a))" and "distinct (tokens (theme b))"
    and "distinct (tokens (keywords_str a))" and "distinct (tokens (keywords_str b))"
    and "distinct (tokens (keytechnology a))" and "distinct (tokens (keytechnology b))"
  shows "relevance a b = relevance b a \<and>
    add_matches 3 (tokens (field a)) (tokens (field b)) 0
      = add_matches 3 (tokens (field b)) (tokens (field a)) 0 \<and>
    (set (tokens (field a)) = set (tokens (field b)) \<longrightarrow>
       add_matches 3 (tokens (field a)) (tokens (field b)) 0 = 3 * length (tokens (field a)) \<and>
       add_matches 3 (tokens (field b)) (tokens (field a)) 0 = 3 * length (tokens (field a)))"
proof -
  have "relevance a b = relevance b a"
    using assms
    by (simp add: relevance_overlap weighted_overlap_def
        matching_commute [of "tokens (field a)"] matching_commute [of "tokens (theme a)"]
        matching_commute [of "tokens (keywords_str a)"] matching_commute [of "tokens (keytechnology a)"])
  moreover have m: "matching (tokens (field a)) (tokens (field b))
      = matching (tokens (field b)) (tokens (field a))"
    using assms(1,2) by (rule matching_commute)
  moreover have "matching (tokens (field a)) (tokens (field b)) = length (tokens (field a))"
    if "set (tokens (field a)) = set (tokens (field b))"
    using that by (simp add: matching_def)
  ultimately show ?thesis
    by (simp add: add_matches_count tokens_nonempty)
qed

theorem relevance_symmetric_witness:
  "distinct (tokens (field example_1)) \<and> distinct (tokens (field example_2)) \<and>
   distinct (tokens (keywords_str example_1)) \<and> distinct (tokens (keywords_str example_2)) \<and>
   relevance example_1 example_2 = relevance example_2 example_1 \<and>
   add_matches 3 (tokens (field example_1)) (tokens (field example_2)) 0
     = add_matches 3 (tokens (field example_2)) (tokens (field example_1)) 0"
proof -
  have d: "distinct (tokens (field example_1))" "distinct (tokens (field example_2))"
    "distinct (tokens (theme example_1))" "distinct (tokens (theme example_2))"
    "distinct (tokens (keywords_str example_1))" "distinct (tokens (keywords_str example_2))"
    "distinct (tokens (keytechnology example_1))" "distinct (tokens (keytechnology example_2))"
    by code_simp+
  show ?thesis
    using relevance_symmetric [OF d] d by simp
qed

section \<open>Properties of the record filter\<close>

lemma split_on_free:
  "sep \<notin> set p \<Longrightarrow> split_on sep cur (p @ r) = split_on sep (cur @ p) r"
  by (induction p arbitrary: cur) auto

lemma split_on_join:
  "ps \<noteq> [] \<Longrightarrow> \<forall>p\<in>set ps. sep \<notin> set p \<Longrightarrow> split_on sep [] (join_with sep ps) = ps"

proof (induction sep ps rule: join_with.induct)
  case (1 sep)
  then show ?case by simp

next
  case (2 sep p)
  then show ?case
    using split_on_free [of sep p "[]" "[]"] by simp

next
  case (3 sep p q ps)
  then show ?case
    using split_on_free [of sep p "[]" "sep # join_with sep (q # ps)"] by simp

qed

lemma split_on_pieces:
  "sep \<notin> set cur \<Longrightarrow>
     split_on sep cur s \<noteq> [] \<and> (\<forall>p\<in>set (split_on sep cur s). sep \<notin> set p) \<and>
     join_with sep (split_on sep cur s) = cur @ s"

proof (induction sep cur s rule: split_on.induct)
  case (1 sep cur)
  then show ?case by simp

next
  case (2 sep cur c cs)
  show ?case
  proof (cases "c = sep")
    case True
    have ih: "split_on sep [] cs \<noteq> [] \<and> (\<forall>p\<in>set (split_on sep [] cs). sep \<notin> set p) \<and>
        join_with sep (split_on sep [] cs) = cs"
      using "2.IH"(1) [OF True] by simp
    then obtain q qs where q: "split_on sep [] cs = q # qs"
      by (cases "split_on sep [] cs") auto
    show ?thesis
      using True ih "2.prems" q by auto
  next
    case False
    then show ?thesis
      using "2.IH"(2) [OF False] "2.prems" by simp
  qed

qed

lemma pipe_list_iff: "pipe_list e ps \<longleftrightarrow> ps = split_on pipe [] e"
  using split_on_join [of ps pipe] split_on_pieces [of pipe "[]" e]
  by (auto simp: pipe_list_def)

lemma matchField_no_filter: "\<not> truthy e \<Longrightarrow> matchField v e = Inr True"
  by (simp add: matchField_def)

lemma matchField_no_value: "truthy e \<Longrightarrow> \<not> truthy v \<Longrightarrow> matchField v e = Inr False"
  by (simp add: matchField_def)

lemma matchField_and:
  "e \<noteq> [] \<Longrightarrow> truthy v \<Longrightarrow> prefix (ascii ''AND:'') e \<Longrightarrow>
     matchField v (Some e) = Inr (\<forall>x\<in>set (split_on pipe [] (drop 4 e)). x \<in> set (tokens v))"
  by (simp add: matchField_def splitByDelimiters_tokens list_all_iff)

lemma matchField_or:
  "e \<noteq> [] \<Longrightarrow> truthy v \<Longrightarrow> \<not> prefix (ascii ''AND:'') e \<Longrightarrow>
     matchField v (Some e) = Inr (\<exists>x\<in>set (split_on pipe [] e). x \<in> set (tokens v))"
  by (simp add: matchField_def splitByDelimiters_tokens list_ex_iff)

lemma matchField_total: "\<exists>b. matchField v e = Inr b"

proof (cases "truthy e \<and> truthy v")
  case True
  then obtain s where "e = Some s" "s \<noteq> []"
    by (cases e) auto
  then show ?thesis
    using True matchField_and [of s v] matchField_or [of s v] by (cases "prefix (ascii ''AND:'') s") auto

next
  case False
  then show ?thesis by (auto simp: matchField_def)

qed

text \<open>
  C3: for a non-empty expression, \<^verbatim>\<open>matchField\<close> is false when the attribute value is
  empty or absent. Otherwise, with the marker \<^verbatim>\<open>AND:\<close> in front it is true iff every piece
  of the rest of the expression, split on \<open>|\<close>, is one of the attribute's tokens, and
  without the marker iff some piece of the expression is. A token matches a piece only when
  they are equal: \<^verbatim>\<open>X\<close> does not match the token \<^verbatim>\<open>XY\<close>.
\<close>

theorem matchField_cases:
  "(e \<noteq> [] \<longrightarrow>
      (\<not> truthy v \<longrightarrow> matchField v (Some e) = Inr False) \<and>
      (truthy v \<and> prefix (ascii ''AND:'') e \<longrightarrow>
         (\<exists>ps. pipe_list (drop 4 e) ps) \<and>
         (\<forall>ps. pipe_list (drop 4 e) ps \<longrightarrow>
            matchField v (Some e) = Inr (\<forall>x\<in>set ps. x \<in> set (tokens v)))) \<and>
      (truthy v \<and> \<not> prefix (ascii ''AND:'') e \<longrightarrow>
         (\<exists>ps. pipe_list e ps) \<and>
         (\<forall>ps. pipe_list e ps \<longrightarrow>
            matchField v (Some e) = Inr (\<exists>x\<in>set ps. x \<in> set (tokens v))))) \<and>
   matchField (Some (ascii ''X,Y,Z'')) (Some (ascii ''AND:X|Y'')) = Inr True \<and>
   matchField (Some (ascii ''X,Y,Z'')) (Some (ascii ''AND:X|W'')) = Inr False \<and>
   matchField (Some (ascii ''X,Y'')) (Some (ascii ''X|W'')) = Inr True \<and>
   matchField (Some (ascii ''X,Y'')) (Some (ascii ''W|V'')) = Inr False \<and>
   matchField (Some (ascii ''XY,Z'')) (Some (ascii ''X'')) = Inr False"

proof -
  have "matchField (Some (ascii ''X,Y,Z'')) (Some (ascii ''AND:X|Y'')) = Inr True"
    "matchField (Some (ascii ''X,Y,Z'')) (Some (ascii ''AND:X|W'')) = Inr False"
    "matchField (Some (ascii ''X,Y'')) (Some (ascii ''X|W'')) = Inr True"
    "matchField (Some (ascii ''X,Y'')) (Some (ascii ''W|V'')) = Inr False"
    "matchField (Some (ascii ''XY,Z'')) (Some (ascii ''X'')) = Inr False"
    by code_simp+
  moreover have "\<not> truthy v \<longrightarrow> matchField v (Some e) = Inr False" if "e \<noteq> []"
    using that by (simp add: matchField_no_value)
  moreover have "(\<exists>ps. pipe_list (drop 4 e) ps) \<and>
      (\<forall>ps. pipe_list (drop 4 e) ps \<longrightarrow>
         matchField v (Some e) = Inr (\<forall>x\<in>set ps. x \<in> set (tokens v)))"
    if "e \<noteq> []" "truthy v" "prefix (ascii ''AND:'') e"
    using that by (simp add: pipe_list_iff matchField_and)
  moreover have "(\<exists>ps. pipe_list e ps) \<and>
      (\<forall>ps. pipe_list e ps \<longrightarrow>
         matchField v (Some e) = Inr (\<exists>x\<in>set ps. x \<in> set (tokens v)))"
    if "e \<noteq> []" "truthy v" "\<not> prefix (ascii ''AND:'') e"
    using that by (simp add: pipe_list_iff matchField_or)
  ultimately show ?thesis by blast

qed

theorem matchField_cases_witness:
  "ascii ''AND:X|Y'' \<noteq> [] \<and> truthy (Some (ascii ''X, Y,Z'')) \<and>
   prefix (ascii ''AND:'') (ascii ''AND:X|Y'') \<and>
   pipe_list (drop 4 (ascii ''AND:X|Y'')) [ascii ''X'', ascii ''Y''] \<and>
   tokens (Some (ascii ''X, Y,Z'')) = [ascii ''X'', ascii ''Y'', ascii ''Z''] \<and>
   matchField (Some (ascii ''X, Y,Z'')) (Some (ascii ''AND:X|Y'')) = Inr True \<and>
   \<not> truthy (Some []) \<and> matchField (Some []) (Some (ascii ''AND:X|Y'')) = Inr False \<and>
   \<not> prefix (ascii ''AND:'') (ascii ''W|V'') \<and> pipe_list (ascii ''W|V'') [ascii ''W'', ascii ''V''] \<and>
   matchField (Some (ascii ''X, Y,Z'')) (Some (ascii ''W|V'')) = Inr False"

proof -
  have h: "ascii ''AND:X|Y'' \<noteq> []" "truthy (Some (ascii ''X, Y,Z''))"
    "prefix (ascii ''AND:'') (ascii ''AND:X|Y'')"
    "tokens (Some (ascii ''X, Y,Z'')) = [ascii ''X'', ascii ''Y'', ascii ''Z'']"
    "\<not> truthy (Some [])" "\<not> prefix (ascii ''AND:'') (ascii ''W|V'')" "ascii ''W|V'' \<noteq> []"
    by code_simp+
  have p: "pipe_list (drop 4 (ascii ''AND:X|Y'')) [ascii ''X'', ascii ''Y'']"
    "pipe_list (ascii ''W|V'') [ascii ''W'', ascii ''V'']"
    by (simp_all add: pipe_list_def ascii_def pipe_def)
  have "matchField (Some (ascii ''X, Y,Z'')) (Some (ascii ''AND:X|Y''))
      = Inr (\<forall>x\<in>set [ascii ''X'', ascii ''Y'']. x \<in> set (tokens (Some (ascii ''X, Y,Z''))))"
    using matchField_cases [of "ascii ''AND:X|Y''" "Some (ascii ''X, Y,Z'')"] h(1-3) p(1) by blast
  then have 1: "matchField (Some (ascii ''X, Y,Z'')) (Some (ascii ''AND:X|Y'')) = Inr True"
    unfolding h(4) by simp
  have 2: "matchField (Some []) (Some (ascii ''AND:X|Y'')) = Inr False"
    using matchField_cases [of "ascii ''AND:X|Y''" "Some []"] h(1,5) by blast
  have "matchField (Some (ascii ''X, Y,Z'')) (Some (ascii ''W|V''))
      = Inr (\<exists>x\<in>set [ascii ''W'', ascii ''V'']. x \<in> set (tokens (Some (ascii ''X, Y,Z''))))"
    using matchField_cases [of "ascii ''W|V''" "Some (ascii ''X, Y,Z'')"] h(2,6,7) p(2) by blast
  then have 3: "matchField (Some (ascii ''X, Y,Z'')) (Some (ascii ''W|V'')) = Inr False"
    unfolding h(4) by (simp add: ascii_def)
  show ?thesis
    using h p 1 2 3 by simp

qed

lemma array_filter_total:
  "(\<And>x. \<exists>b. p x = Inr b) \<Longrightarrow> array_filter p xs = Inr (filter (\<lambda>x. p x = Inr True) xs)"

proof (induction xs)
  case Nil
  then show ?case by simp

next
  case (Cons x xs)
  obtain b where "p x = Inr b"
    using Cons.prems by blast
  then show ?case
    using Cons.IH [OF Cons.prems] by simp

qed

lemma lower_includes_total: "\<exists>b. lower_includes lc v q = Inr b"
  by (cases v) (auto simp: lower_includes_def)

lemma or_else_Inr: "or_else (Inr a) (Inr b) = Inr (a \<or> b)"
  by (simp add: or_else_def)

lemma check_then_Inr: "check_then (Inr a) (Inr b) = Inr (a \<and> b)"
  by (simp add: check_then_def)

lemma textMatch_total: "\<exists>b. textMatch lc r q = Inr b"

proof -
  obtain a b c where "lower_includes lc (name r) q = Inr a" "lower_includes lc (theme r) q = Inr b"
    "lower_includes lc (affiliation r) q = Inr c"
    using lower_includes_total by meson
  then show ?thesis
    by (simp add: textMatch_def or_else_Inr)

qed

lemma attribute_check_total: "\<exists>b. attribute_check v e = Inr b"
  using matchField_total [of v e] by (auto simp: attribute_check_def)

lemma keeps_total: "\<exists>b. keeps lc f r = Inr b"

proof -
  obtain t where t: "(if truthy (read_value (by_theme f)) \<or> truthy (read_value (by_affiliation f))
        then textMatch lc r (string_or (read_value (by_theme f)) (string_or (read_value (by_affiliation f)) []))
        else Inr True) = Inr t"
    using textMatch_total by (metis (full_types))
  obtain a b c d where "attribute_check (field r) (read_value (by_field f)) = Inr a"
    "attribute_check (keywords_str r) (read_value (by_keyword f)) = Inr b"
    "attribute_check (keytechnology r) (read_value (by_keytechnology f)) = Inr c"
    "attribute_check (program r) (read_value (by_program f)) = Inr d"
    using attribute_check_total by meson
  then show ?thesis
    unfolding keeps_def t by (simp add: check_then_Inr)

qed

lemma truthy_read: "truthy (read_value c) = present c"
  by (cases c) (simp_all add: present_def expression_def)

lemma read_present: "present c \<Longrightarrow> read_value c = Some (expression c)"
  by (cases c) (simp_all add: present_def expression_def)

lemma string_or_query:
  "string_or (read_value (by_theme f)) (string_or (read_value (by_affiliation f)) []) = query f"
  by (cases "by_theme f"; cases "by_affiliation f") (simp_all add: query_def present_def expression_def)

lemma lower_includes_contains:
  assumes "\<forall>s. (lc s = []) = (s = [])" and "q \<noteq> []"
  shows "lower_includes lc v q = Inr (contains_ci lc v q)"

proof (cases v)
  case None
  then show ?thesis by (simp add: lower_includes_def contains_ci_def)

next
  case (Some s)
  show ?thesis
  proof (cases "s = []")
    case True
    have "lc [] = []" and "lc q \<noteq> []"
      using assms by blast+
    then show ?thesis
      using Some True by (simp add: lower_includes_def contains_ci_def)
  next
    case False
    then show ?thesis
      using Some by (simp add: lower_includes_def contains_ci_def)
  qed

qed

lemma attribute_check_passes: "attribute_check v (read_value c) = Inr (attribute_passes c v)"

proof (cases "present c")
  case True
  obtain b where "matchField v (Some (expression c)) = Inr b"
    using matchField_total by blast
  moreover have "expression c \<noteq> []"
    using True by (simp add: present_def)
  ultimately show ?thesis
    using True by (simp add: attribute_check_def attribute_passes_def read_present)

next
  case False
  then show ?thesis
    by (simp add: attribute_check_def attribute_passes_def truthy_read)

qed

lemma query_nonempty: "present (by_theme f) \<or> present (by_affiliation f) \<Longrightarrow> query f \<noteq> []"
  by (auto simp: query_def present_def)

lemma keeps_passes:
  assumes "\<forall>s. (lc s = []) = (s = [])"
  shows "keeps lc f r = Inr (passes lc f r)"

proof -
  have "(if truthy (read_value (by_theme f)) \<or> truthy (read_value (by_affiliation f))
        then textMatch lc r (string_or (read_value (by_theme f)) (string_or (read_value (by_affiliation f)) []))
        else Inr True) = Inr (free_text_check lc f r)"
  proof (cases "present (by_theme f) \<or> present (by_affiliation f)")
    case True
    then have "query f \<noteq> []" by (rule query_nonempty)
    then show ?thesis
      using True assms
      by (simp add: truthy_read string_or_query textMatch_def lower_includes_contains or_else_Inr
          free_text_check_def)
  next
    case False
    then show ?thesis
      by (simp add: truthy_read free_text_check_def)
  qed
  then show ?thesis
    unfolding keeps_def by (simp add: attribute_check_passes check_then_Inr passes_def)

qed

lemma no_keys_absent:
  "object_keys f = [] \<longleftrightarrow> (\<forall>c\<in>set (all_criteria f). c = Absent)"
  by (simp add: object_keys_def filter_empty_conv)

lemma keeps_unconstrained:
  assumes "\<forall>c\<in>set (all_criteria f). \<not> present c"
  shows "keeps lc f r = Inr True"
  using assms
  by (simp add: keeps_def all_criteria_def truthy_read attribute_check_def check_then_Inr)

lemma Absent_not_present: "\<not> present Absent" "\<not> present Undefined" "\<not> present (Given [])"
  by (simp_all add: present_def expression_def)

lemma filterResearchers_filter:
  "filterResearchers lc rs f = Inr (filter (\<lambda>r. keeps lc f r = Inr True) rs)"

proof (cases "length (object_keys f) = 0")
  case True
  then have "\<forall>c\<in>set (all_criteria f). \<not> present c"
    using Absent_not_present(1) by (auto simp: no_keys_absent)
  then have "\<And>r. keeps lc f r = Inr True"
    by (rule keeps_unconstrained)
  then show ?thesis
    using True by (simp add: filterResearchers_def)

next
  case False
  then show ?thesis
    using array_filter_total [of "keeps lc f" rs] keeps_total [of lc f]
    by (simp add: filterResearchers_def)

qed

lemma filterResearchers_unconstrained:
  "\<forall>c\<in>set (all_criteria f). \<not> present c \<Longrightarrow> filterResearchers lc rs f = Inr rs"
  by (simp add: filterResearchers_filter keeps_unconstrained)

lemma toLowerCase_ascii_empty: "(toLowerCase_ascii s = []) = (s = [])"
  by (simp add: toLowerCase_ascii_def)

text \<open>
  C4: \<^verbatim>\<open>filterResearchers\<close> returns, in input order, exactly the records that pass every
  active check: when a theme or affiliation criterion is present, the name, the theme or
  the affiliation of the record contains the query, both lower-cased; and every present
  criterion of field, keyword, keytechnology and program is matched by \<^verbatim>\<open>matchField\<close> on
  the record's attribute. The lower-case mapping sends the empty string, and no other, to
  the empty string, as \<^verbatim>\<open>toLowerCase\<close> does.
\<close>

theorem filterResearchers_passes:
  assumes "\<forall>s. (lc s = []) = (s = [])"
  shows "filterResearchers lc rs f = Inr (filter (passes lc f) rs)"
  using assms by (simp add: filterResearchers_filter keeps_passes)

theorem filterResearchers_passes_witness:
  "(\<forall>s. (toLowerCase_ascii s = []) = (s = [])) \<and>
   passes toLowerCase_ascii (no_filters\<lparr>by_affiliation := Given (ascii ''kuma'')\<rparr>) example_kumamoto \<and>
   \<not> passes toLowerCase_ascii (no_filters\<lparr>by_affiliation := Given (ascii ''kuma'')\<rparr>) example_1 \<and>
   filterResearchers toLowerCase_ascii [example_1, example_kumamoto]
       (no_filters\<lparr>by_affiliation := Given (ascii ''kuma'')\<rparr>) = Inr [example_kumamoto]"

proof -
  have l: "\<forall>s. (toLowerCase_ascii s = []) = (s = [])"
    by (simp add: toLowerCase_ascii_empty)
  have p: "passes toLowerCase_ascii (no_filters\<lparr>by_affiliation := Given (ascii ''kuma'')\<rparr>) example_kumamoto"
    "\<not> passes toLowerCase_ascii (no_filters\<lparr>by_affiliation := Given (ascii ''kuma'')\<rparr>) example_1"
    by code_simp+
  have "filterResearchers toLowerCase_ascii [example_1, example_kumamoto]
       (no_filters\<lparr>by_affiliation := Given (ascii ''kuma'')\<rparr>)
     = Inr (filter (passes toLowerCase_ascii (no_filters\<lparr>by_affiliation := Given (ascii ''kuma'')\<rparr>))
         [example_1, example_kumamoto])"
    using filterResearchers_passes [OF l] by blast
  then show ?thesis
    using l p by simp

qed

lemma add_matches_falsy:
  "\<not> truthy x \<or> \<not> truthy y \<Longrightarrow> add_matches w (tokens x) (tokens y) sc = sc"
  by (auto simp: add_matches_count tokens_nonempty matching_def tokens_falsy)

lemma weighted_overlap_falsy:
  assumes "\<not> truthy (field a)" "\<not> truthy (theme a)" "\<not> truthy (keywords_str a)"
    "\<not> truthy (keytechnology a)"
  shows "weighted_overlap a b = 0" "weighted_overlap b a = 0"
  using assms by (simp_all add: weighted_overlap_def matching_def tokens_falsy)

lemma filterResearchers_subset:
  "filterResearchers lc rs f = Inr kept \<Longrightarrow> set kept \<subseteq> set rs"
  by (auto simp: filterResearchers_filter)

text \<open>
  C10: \<^verbatim>\<open>matchField\<close> is true on the empty expression whatever the attribute value is;
  for each of the six keys, the filter gives the same result with the empty string as with
  the key absent; and criteria that are all the empty string give back every record.
\<close>

theorem empty_criterion_is_absent:
  "matchField v (Some []) = Inr True \<and>
   filterResearchers lc rs (f\<lparr>by_field := Given []\<rparr>) = filterResearchers lc rs (f\<lparr>by_field := Absent\<rparr>) \<and>
   filterResearchers lc rs (f\<lparr>by_keyword := Given []\<rparr>) = filterResearchers lc rs (f\<lparr>by_keyword := Absent\<rparr>) \<and>
   filterResearchers lc rs (f\<lparr>by_keytechnology := Given []\<rparr>)
     = filterResearchers lc rs (f\<lparr>by_keytechnology := Absent\<rparr>) \<and>
   filterResearchers lc rs (f\<lparr>by_program := Given []\<rparr>) = filterResearchers lc rs (f\<lparr>by_program := Absent\<rparr>) \<and>
   filterResearchers lc rs (f\<lparr>by_theme := Given []\<rparr>) = filterResearchers lc rs (f\<lparr>by_theme := Absent\<rparr>) \<and>
   filterResearchers lc rs (f\<lparr>by_affiliation := Given []\<rparr>)
     = filterResearchers lc rs (f\<lparr>by_affiliation := Absent\<rparr>) \<and>
   ((\<forall>c\<in>set (all_criteria f). c = Given []) \<longrightarrow> filterResearchers lc rs f = Inr rs)"

proof -
  have "matchField v (Some []) = Inr True"
    by (simp add: matchField_no_filter)
  moreover have "keeps lc (f\<lparr>by_field := Given []\<rparr>) = keeps lc (f\<lparr>by_field := Absent\<rparr>)"
    "keeps lc (f\<lparr>by_keyword := Given []\<rparr>) = keeps lc (f\<lparr>by_keyword := Absent\<rparr>)"
    "keeps lc (f\<lparr>by_keytechnology := Given []\<rparr>) = keeps lc (f\<lparr>by_keytechnology := Absent\<rparr>)"
    "keeps lc (f\<lparr>by_program := Given []\<rparr>) = keeps lc (f\<lparr>by_program := Absent\<rparr>)"
    "keeps lc (f\<lparr>by_theme := Given []\<rparr>) = keeps lc (f\<lparr>by_theme := Absent\<rparr>)"
    "keeps lc (f\<lparr>by_affiliation := Given []\<rparr>) = keeps lc (f\<lparr>by_affiliation := Absent\<rparr>)"
    by (simp_all add: keeps_def attribute_check_def fun_eq_iff)
  moreover have "filterResearchers lc rs f = Inr rs" if "\<forall>c\<in>set (all_criteria f). c = Given []"
  proof -
    have "\<forall>c\<in>set (all_criteria f). \<not> present c"
      using that Absent_not_present(3) by auto
    then show ?thesis
      by (rule filterResearchers_unconstrained)
  qed
  ultimately show ?thesis
    by (simp add: filterResearchers_filter)

qed

theorem empty_criterion_is_absent_witness:
  "list_all (\<lambda>c. c = Given []) (all_criteria empty_filters) \<and>
   filterResearchers toLowerCase_ascii [example_1, example_2] empty_filters = Inr [example_1, example_2] \<and>
   matchField None (Some []) = Inr True"

proof -
  have a: "\<forall>c\<in>set (all_criteria empty_filters). c = Given []"
    by (simp add: all_criteria_def empty_filters_def)
  have "filterResearchers toLowerCase_ascii [example_1, example_2] empty_filters
      = Inr [example_1, example_2]"
    using empty_criterion_is_absent [of None toLowerCase_ascii "[example_1, example_2]" empty_filters] a
    by blast
  moreover have "matchField None (Some []) = Inr True"
    using empty_criterion_is_absent [of None] by blast
  ultimately show ?thesis
    using a by (simp add: list_all_iff)

qed

text \<open>
  C9: the tokenizer, the graph builder and the filter return a result for every record list
  and every criteria object, they never throw. An absent or empty attribute has no tokens and
  adds nothing to a score, a record without scored attributes scores 0 in both directions,
  every record gets a connections list, and absent criteria give back every record.
\<close>

theorem core_never_throws:
  "(\<exists>ts. splitByDelimiters v = Inr ts) \<and>
   (\<exists>rs'. calculateConnections rs = Inr rs' \<and> length rs' = length rs \<and>
      (\<forall>i<length rs. \<exists>cs. connections (rs' ! i) = Some cs)) \<and>
   (\<exists>kept. filterResearchers lc rs f = Inr kept \<and> set kept \<subseteq> set rs) \<and>
   (\<not> truthy v \<longrightarrow> splitByDelimiters v = Inr []) \<and>
   (\<not> truthy x \<or> \<not> truthy y \<longrightarrow> add_matches w (tokens x) (tokens y) sc = sc) \<and>
   (\<not> truthy (field a) \<and> \<not> truthy (theme a) \<and> \<not> truthy (keywords_str a) \<and>
    \<not> truthy (keytechnology a) \<longrightarrow> relevance a b = Inr 0 \<and> relevance b a = Inr 0) \<and>
   ((\<forall>c\<in>set (all_criteria f). c = Absent) \<longrightarrow> filterResearchers lc rs f = Inr rs)"

proof -
  have "\<exists>ts. splitByDelimiters v = Inr ts"
    by (simp add: splitByDelimiters_tokens)
  moreover have "\<exists>rs'. calculateConnections rs = Inr rs' \<and> length rs' = length rs \<and>
      (\<forall>i<length rs. \<exists>cs. connections (rs' ! i) = Some cs)"
    by (simp add: calculateConnections_ranked)
  moreover have "\<exists>kept. filterResearchers lc rs f = Inr kept \<and> set kept \<subseteq> set rs"
    using filterResearchers_subset [of lc rs f] by (simp add: filterResearchers_filter)
  moreover have "\<not> truthy v \<longrightarrow> splitByDelimiters v = Inr []"
    by (simp add: splitByDelimiters_falsy)
  moreover have "\<not> truthy x \<or> \<not> truthy y \<longrightarrow> add_matches w (tokens x) (tokens y) sc = sc"
    using add_matches_falsy by blast
  moreover have "relevance a b = Inr 0 \<and> relevance b a = Inr 0"
    if "\<not> truthy (field a) \<and> \<not> truthy (theme a) \<and> \<not> truthy (keywords_str a) \<and>
        \<not> truthy (keytechnology a)"
    using that by (simp add: relevance_overlap weighted_overlap_falsy)
  moreover have "filterResearchers lc rs f = Inr rs" if "\<forall>c\<in>set (all_criteria f). c = Absent"
  proof -
    have "\<forall>c\<in>set (all_criteria f). \<not> present c"
      using that Absent_not_present(1) by auto
    then show ?thesis
      by (rule filterResearchers_unconstrained)
  qed
  ultimately show ?thesis by blast

qed

theorem core_never_throws_witness:
  "\<not> truthy (Some []) \<and> splitByDelimiters (Some []) = Inr [] \<and>
   \<not> truthy (field blank) \<and> \<not> truthy (theme blank) \<and> \<not> truthy (keywords_str blank) \<and>
   \<not> truthy (keytechnology blank) \<and>
   relevance blank example_1 = Inr 0 \<and> relevance example_1 blank = Inr 0 \<and>
   add_matches 3 (tokens None) (tokens (field example_1)) 0 = 0 \<and>
   list_all (\<lambda>c. c = Absent) (all_criteria no_filters) \<and>
   filterResearchers toLowerCase_ascii [example_1, blank] no_filters = Inr [example_1, blank]"

proof -
  have t: "\<not> truthy (Some [])" "\<not> truthy None"
    by simp_all
  have b: "\<not> truthy (field blank) \<and> \<not> truthy (theme blank) \<and> \<not> truthy (keywords_str blank) \<and>
      \<not> truthy (keytechnology blank)"
    by (simp add: blank_def)
  have n: "\<forall>c\<in>set (all_criteria no_filters). c = Absent"
    by (simp add: all_criteria_def no_filters_def)
  have 1: "splitByDelimiters (Some []) = Inr []"
    using core_never_throws [of "Some []"] t(1) by blast
  have 2: "relevance blank example_1 = Inr 0 \<and> relevance example_1 blank = Inr 0"
    using core_never_throws [where a = blank and b = example_1] b by blast
  have 3: "add_matches 3 (tokens None) (tokens (field example_1)) 0 = 0"
    using core_never_throws [where x = None and y = "field example_1" and w = 3 and sc = 0] t(2)
    by blast
  have 4: "filterResearchers toLowerCase_ascii [example_1, blank] no_filters = Inr [example_1, blank]"
    using core_never_throws [where f = no_filters and lc = toLowerCase_ascii
        and rs = "[example_1, blank]"] n
    by blast
  show ?thesis
    using t(1) b n 1 2 3 4 by (simp add: list_all_iff)

qed

text \<open>
  C8: \<^verbatim>\<open>filterResearchers\<close> returns on every heap, and it leaves the record objects, the
  criteria objects and every array allocated before the call as they were; the array it
  returns holds the records the filter on values returns. With no key in the criteria
  object it returns the input array itself and the heap unchanged; with keys that are all
  \<^verbatim>\<open>undefined\<close> it returns an array with the same elements.
\<close>

theorem filterResearchers_frame:
  "(\<exists>res. filterResearchers_in_heap lc h a c = Inr res) \<and>
   (filterResearchers_in_heap lc h a c = Inr (a', h') \<longrightarrow>
      objects h' = objects h \<and> criteria h' = criteria h \<and>
      (\<forall>x<next_array h. arrays h' x = arrays h x) \<and>
      filterResearchers lc (map (objects h) (arrays h a)) (criteria h c)
        = Inr (map (objects h') (arrays h' a'))) \<and>
   ((\<forall>k\<in>set (all_criteria (criteria h c)). k = Absent) \<longrightarrow>
      filterResearchers_in_heap lc h a c = Inr (a, h)) \<and>
   ((\<forall>k\<in>set (all_criteria (criteria h c)). k = Absent \<or> k = Undefined) \<longrightarrow>
      (\<exists>b g. filterResearchers_in_heap lc h a c = Inr (b, g) \<and> arrays g b = arrays h a))"

proof -
  let ?f = "criteria h c"
  let ?p = "\<lambda>r. keeps lc ?f (objects h r)"
  let ?kept = "filter (\<lambda>r. ?p r = Inr True) (arrays h a)"
  let ?g = "h\<lparr>arrays := (arrays h)(next_array h := ?kept), next_array := Suc (next_array h)\<rparr>"
  have kept: "array_filter ?p (arrays h a) = Inr ?kept"
    by (rule array_filter_total) (rule keeps_total)
  have res: "filterResearchers_in_heap lc h a c
      = (if object_keys ?f = [] then Inr (a, h) else Inr (next_array h, ?g))"
    by (simp add: filterResearchers_in_heap_def kept)
  have total: "\<exists>res. filterResearchers_in_heap lc h a c = Inr res"
    by (simp add: res)
  have frame: "objects h' = objects h \<and> criteria h' = criteria h \<and>
      (\<forall>x<next_array h. arrays h' x = arrays h x) \<and>
      filterResearchers lc (map (objects h) (arrays h a)) ?f = Inr (map (objects h') (arrays h' a'))"
    if r: "filterResearchers_in_heap lc h a c = Inr (a', h')"
  proof (cases "object_keys ?f = []")
    case True
    then have "a' = a" "h' = h"
      using r res by auto
    moreover have "\<forall>k\<in>set (all_criteria ?f). \<not> present k"
      using True Absent_not_present(1) by (auto simp: no_keys_absent)
    ultimately show ?thesis
      by (simp add: filterResearchers_unconstrained)
  next
    case False
    then have "a' = next_array h" "h' = ?g"
      using r res by auto
    then show ?thesis
      by (simp add: filterResearchers_filter filter_map comp_def)
  qed
  have same: "filterResearchers_in_heap lc h a c = Inr (a, h)"
    if "\<forall>k\<in>set (all_criteria ?f). k = Absent"
    using that by (simp add: res no_keys_absent)
  have equal: "\<exists>b g. filterResearchers_in_heap lc h a c = Inr (b, g) \<and> arrays g b = arrays h a"
    if u: "\<forall>k\<in>set (all_criteria ?f). k = Absent \<or> k = Undefined"
  proof -
    have "\<forall>k\<in>set (all_criteria ?f). \<not> present k"
      using u Absent_not_present(1,2) by auto
    then have "?kept = arrays h a"
      by (simp add: keeps_unconstrained)
    then show ?thesis
      by (simp add: res)
  qed
  show ?thesis
    using total frame same equal by blast

qed

theorem filterResearchers_frame_witness:
  "(\<exists>b g. filterResearchers_in_heap toLowerCase_ascii example_heap 0 1 = Inr (b, g) \<and>
      arrays g b = [2] \<and> objects g = objects example_heap \<and> criteria g = criteria example_heap \<and>
      arrays g 0 = [0, 1, 2]) \<and>
   list_all (\<lambda>k. k = Absent) (all_criteria (criteria example_heap 0)) \<and>
   filterResearchers_in_heap toLowerCase_ascii example_heap 0 0 = Inr (0, example_heap)"

proof -
  let ?g = "example_heap\<lparr>arrays := (arrays example_heap)(next_array example_heap := [2]),
      next_array := Suc (next_array example_heap)\<rparr>"
  have k: "array_filter (\<lambda>r. keeps toLowerCase_ascii (criteria example_heap 1) (objects example_heap r))
      (arrays example_heap 0) = Inr [2]"
    by code_simp
  have nk: "length (object_keys (criteria example_heap 1)) \<noteq> 0"
    by code_simp
  have r: "filterResearchers_in_heap toLowerCase_ascii example_heap 0 1 = Inr (next_array example_heap, ?g)"
    unfolding filterResearchers_in_heap_def k using nk by simp
  have n: "next_array example_heap = 1" "arrays example_heap 0 = [0, 1, 2]"
    by (simp_all add: example_heap_def)
  have fr: "objects ?g = objects example_heap \<and> criteria ?g = criteria example_heap \<and>
      (\<forall>x<next_array example_heap. arrays ?g x = arrays example_heap x)"
    using filterResearchers_frame [of toLowerCase_ascii example_heap 0 1 "next_array example_heap" ?g] r
    by blast
  then have "arrays ?g 0 = [0, 1, 2]"
    using n by simp
  moreover have "arrays ?g (next_array example_heap) = [2]"
    by simp
  ultimately have 1: "\<exists>b g. filterResearchers_in_heap toLowerCase_ascii example_heap 0 1 = Inr (b, g) \<and>
      arrays g b = [2] \<and> objects g = objects example_heap \<and> criteria g = criteria example_heap \<and>
      arrays g 0 = [0, 1, 2]"
    using r fr by blast
  have a: "\<forall>k\<in>set (all_criteria (criteria example_heap 0)). k = Absent"
    by (simp add: all_criteria_def example_heap_def no_filters_def)
  have 2: "filterResearchers_in_heap toLowerCase_ascii example_heap 0 0 = Inr (0, example_heap)"
    using filterResearchers_frame [of toLowerCase_ascii example_heap 0 0] a by blast
  show ?thesis
    using 1 2 a by (simp add: list_all_iff)

qed

end
